theory Spec2Isabelle
  imports Main "HOL-Library.Word"
begin

section \<open>Memory, pointers and the allocator\<close>

text \<open>
  The vector of \<^verbatim>\<open>vector.c\<close> is a control structure with three \<^verbatim>\<open>size_t\<close> fields and
  a pointer \<^verbatim>\<open>inner\<close> to a heap block of raw bytes. \<^verbatim>\<open>size_t\<close> is taken to be 64 bits wide;
  its arithmetic wraps around, which is what words do.

  A heap block is its address together with the bytes it holds and whether it is still
  allocated (\<open>live\<close>); a block that has been freed keeps its address, which is what a
  pointer to it still holds. A pointer into a block is the block's address and a byte
  offset; \<open>Null\<close> is the null pointer.
\<close>

type_synonym size_t = "64 word"
type_synonym byte = "8 word"
type_synonym addr = "64 word"

record block =
  base :: addr
  bytes :: "byte list"
  live :: bool

datatype ptr = Null | Ptr addr nat

text \<open>
  The C library decides whether an allocation succeeds, where the block lies and what a
  fresh block holds. Its reply is an input of the model: \<open>Refuse\<close> is the \<^verbatim>\<open>NULL\<close> result,
  \<open>Grant p junk\<close> a block at address \<open>p\<close> whose uninitialised byte \<open>i\<close> reads \<open>junk i\<close>.
\<close>

datatype alloc = Refuse | Grant addr "nat \<Rightarrow> byte"

text \<open>
  A call either terminates the process (\<^verbatim>\<open>abort()\<close>, or a failed \<^verbatim>\<open>assert\<close>), or reads or
  writes outside a block, in a freed block or through a null pointer, or hands a freed
  block to the allocator (undefined behaviour in C), or returns.
  The assertions are taken as compiled in: a failed one terminates the process.
\<close>

datatype 'a outcome = Aborts | Undefined | Returns 'a

definition and_then :: "'a outcome \<Rightarrow> ('a \<Rightarrow> 'b outcome) \<Rightarrow> 'b outcome" where
  "and_then r f = (case r of Aborts \<Rightarrow> Aborts | Undefined \<Rightarrow> Undefined | Returns x \<Rightarrow> f x)"

definition size_max :: nat where
  "size_max = 2 ^ 64"

text \<open>\<^verbatim>\<open>malloc(size)\<close>: a fresh block of \<open>size\<close> bytes of unspecified content, or \<^verbatim>\<open>NULL\<close>.\<close>

definition malloc :: "alloc \<Rightarrow> size_t \<Rightarrow> block option" where
  "malloc a sz =
     (case a of
        Refuse \<Rightarrow> None
      | Grant p junk \<Rightarrow> Some \<lparr>base = p, bytes = map junk [0..<unat sz], live = True\<rparr>)"

text \<open>
  \<^verbatim>\<open>calloc(nmemb, size)\<close>: a fresh zeroed block of \<open>nmemb * size\<close> bytes; \<^verbatim>\<open>NULL\<close> when the
  product does not fit \<^verbatim>\<open>size_t\<close> or the allocator refuses.
\<close>

definition calloc :: "alloc \<Rightarrow> size_t \<Rightarrow> size_t \<Rightarrow> block option" where
  "calloc a nmemb sz =
     (if size_max \<le> unat nmemb * unat sz then None
      else case a of
        Refuse \<Rightarrow> None
      | Grant p junk \<Rightarrow>
          Some \<lparr>base = p, bytes = replicate (unat nmemb * unat sz) 0, live = True\<rparr>)"

text \<open>
  \<^verbatim>\<open>reallocarray(ptr, nmemb, size)\<close>, as the GNU C library does it, on a block that is
  live. The result is the pointer returned (\<open>None\<close> is \<^verbatim>\<open>NULL\<close>) and the old block as the
  call leaves it.
  \<^item> When \<open>nmemb * size\<close> does not fit \<^verbatim>\<open>size_t\<close>: \<^verbatim>\<open>NULL\<close>, the old block untouched.
  \<^item> When \<open>nmemb * size\<close> is zero: the call is \<^verbatim>\<open>realloc(ptr, 0)\<close>, which frees the old block
    and returns \<^verbatim>\<open>NULL\<close>.
  \<^item> When the allocator refuses: \<^verbatim>\<open>NULL\<close>, the old block untouched.
  \<^item> Otherwise a live block of \<open>nmemb * size\<close> bytes, at the old address or at a new one,
    that keeps the old bytes up to the smaller of the two sizes and has unspecified bytes
    beyond; the old block is no longer there.
\<close>

definition reallocarray :: "alloc \<Rightarrow> block \<Rightarrow> size_t \<Rightarrow> size_t \<Rightarrow> block option \<times> block" where
  "reallocarray a old nmemb sz =
     (if size_max \<le> unat nmemb * unat sz then (None, old)
      else if unat nmemb * unat sz = 0 then (None, old\<lparr>live := False\<rparr>)
      else case a of
        Refuse \<Rightarrow> (None, old)
      | Grant p junk \<Rightarrow>
          (Some \<lparr>base = p,
                 bytes = take (unat nmemb * unat sz) (bytes old) @
                         map junk [length (bytes old)..<unat nmemb * unat sz],
                 live = True\<rparr>,
           old\<lparr>live := False\<rparr>))"

text \<open>
  \<^verbatim>\<open>memmove(dst + doff, src + soff, n)\<close> on the contents of the two blocks: the \<open>n\<close> bytes are
  read first and then written, so the blocks may be the same one. The result is the new
  content of the destination block; \<open>None\<close> when either range leaves its block.
  \<^verbatim>\<open>memcpy\<close> is the same function: the code only uses it on blocks that do not overlap.
  Whether the blocks are live is checked where the functions are called.
\<close>

definition memmove :: "byte list \<Rightarrow> nat \<Rightarrow> byte list \<Rightarrow> nat \<Rightarrow> nat \<Rightarrow> byte list option" where
  "memmove dst doff src soff n =
     (if soff + n \<le> length src \<and> doff + n \<le> length dst
      then Some (take doff dst @ take n (drop soff src) @ drop (doff + n) dst)
      else None)"

definition memcpy :: "byte list \<Rightarrow> nat \<Rightarrow> byte list \<Rightarrow> nat \<Rightarrow> nat \<Rightarrow> byte list option" where
  "memcpy dst doff src soff n = memmove dst doff src soff n"

text \<open>\<^verbatim>\<open>p[i] = c\<close> on the content of the block \<open>p\<close> points to.\<close>

definition poke :: "byte list \<Rightarrow> nat \<Rightarrow> byte \<Rightarrow> byte list option" where
  "poke mem i c = (if i < length mem then Some (mem[i := c]) else None)"

text \<open>
  The \<^verbatim>\<open>element\<close> argument of \<open>vec_push\<close> is a pointer. It refers either to an object of the
  caller's outside the vector, given by its content, or it is a pointer value the caller
  holds: \<^verbatim>\<open>NULL\<close>, or a pointer into the vector's storage that \<open>vec_get\<close> or \<open>vec_push\<close>
  returned earlier.

  \<open>deref blk element n\<close> is what reading \<open>n\<close> bytes through the pointer yields while \<open>blk\<close> is
  the block behind \<^verbatim>\<open>inner\<close>; \<open>None\<close> when the read is undefined: the object is shorter, the
  pointer is null, the range leaves the block, or the pointer is into a block that is no
  longer the vector's (it was moved or freed).
\<close>

datatype source = Object "byte list" | Held ptr

fun deref :: "block \<Rightarrow> source \<Rightarrow> nat \<Rightarrow> byte list option" where
  "deref blk (Object obj) n = (if n \<le> length obj then Some (take n obj) else None)"
| "deref blk (Held Null) n = None"
| "deref blk (Held (Ptr b off)) n =
     (if live blk \<and> b = base blk \<and> off + n \<le> length (bytes blk)
      then Some (take n (drop off (bytes blk))) else None)"

section \<open>The vector\<close>

record vector =
  inner :: block
  capacity :: size_t
  len :: size_t
  elem_size :: size_t

text \<open>
  The field \<open>inner\<close> is the pointer together with the block it points to, so a block that
  the allocator frees behind the vector's back shows as \<open>live (inner v) = False\<close>: the
  pointer dangles.

  A \<^verbatim>\<open>vector*\<close> is a \<open>vector option\<close>, \<open>None\<close> being \<^verbatim>\<open>NULL\<close>. Every function that takes a
  \<^verbatim>\<open>vector*\<close> returns its result together with the vector as the call leaves it.

  \<^verbatim>\<open>VEC_ADDR_OF(vec, index)\<close> is the address \<open>index * elem_size\<close> bytes into the block, the
  product taken in \<^verbatim>\<open>size_t\<close>. It is modelled by that byte offset.
\<close>

definition VEC_ADDR_OF :: "vector \<Rightarrow> size_t \<Rightarrow> nat" where
  "VEC_ADDR_OF vec index = unat (index * elem_size vec)"

definition vec_init :: "bool \<Rightarrow> alloc \<Rightarrow> size_t \<Rightarrow> size_t \<Rightarrow> vector option" where
  "vec_init got_vec a init_capacity sizeof_type =
     (if \<not> got_vec then None
      else case calloc a init_capacity sizeof_type of
        None \<Rightarrow> None
      | Some blk \<Rightarrow>
          Some \<lparr>inner = blk, capacity = init_capacity, len = 0, elem_size = sizeof_type\<rparr>)"

fun vec_validate_idx :: "vector option \<Rightarrow> size_t \<Rightarrow> unit outcome" where
  "vec_validate_idx None index = Aborts"
| "vec_validate_idx (Some v) index = (if index < len v then Returns () else Aborts)"

fun vec_resize :: "alloc \<Rightarrow> vector option \<Rightarrow> size_t \<Rightarrow> (bool \<times> vector) outcome" where
  "vec_resize a None num_elements = Aborts"
| "vec_resize a (Some v) num_elements =
     (if \<not> live (inner v) then Undefined
      else case reallocarray a (inner v) num_elements (elem_size v) of
        (None, old) \<Rightarrow> Returns (False, v\<lparr>inner := old\<rparr>)
      | (Some p, old) \<Rightarrow>
          (let v1 = v\<lparr>capacity := num_elements\<rparr>;
               v2 = (if capacity v1 < len v1 then v1\<lparr>len := capacity v1\<rparr> else v1)
           in Returns (True, v2\<lparr>inner := p\<rparr>)))"

fun vec_grow :: "alloc \<Rightarrow> vector option \<Rightarrow> (bool \<times> vector) outcome" where
  "vec_grow a None = Aborts"
| "vec_grow a (Some v) =
     (let new_capacity = (capacity v * 3) div 2
      in if new_capacity \<le> capacity v then Returns (False, v)
         else vec_resize a (Some v) new_capacity)"

text \<open>
  \<^verbatim>\<open>memmove\<close> reads \<open>elem_size\<close> bytes through \<open>element\<close> after \<open>vec_grow\<close> has run, so through a
  pointer into the vector it reads the block as the growth left it. The allocator's reply
  is consulted only if the vector grows.
\<close>

fun vec_push :: "alloc \<Rightarrow> vector option \<Rightarrow> source \<Rightarrow> (ptr \<times> vector) outcome" where
  "vec_push a None element = Aborts"
| "vec_push a (Some v) element =
     and_then (if capacity v \<le> len v then vec_grow a (Some v) else Returns (True, v))
       (\<lambda>(grown, v1).
          if capacity v \<le> len v \<and> grown = False then Returns (Null, v1)
          else
            (case deref (inner v1) element (unat (elem_size v1)) of
               None \<Rightarrow> Undefined
             | Some src \<Rightarrow>
                 if \<not> live (inner v1) then Undefined
                 else
                   (case memmove (bytes (inner v1)) (VEC_ADDR_OF v1 (len v1))
                           src 0 (unat (elem_size v1)) of
                      None \<Rightarrow> Undefined
                    | Some m \<Rightarrow>
                        (let v2 = v1\<lparr>inner := (inner v1)\<lparr>bytes := m\<rparr>\<rparr>;
                             mem = Ptr (base (inner v2)) (VEC_ADDR_OF v2 (len v2))
                         in Returns (mem,
                              if mem \<noteq> Null then v2\<lparr>len := len v2 + 1\<rparr> else v2)))))"

text \<open>The result of \<open>vec_pop\<close> is the caller's own block, \<open>None\<close> being \<^verbatim>\<open>NULL\<close>.\<close>

fun vec_pop :: "alloc \<Rightarrow> vector option \<Rightarrow> (block option \<times> vector) outcome" where
  "vec_pop a None = Aborts"
| "vec_pop a (Some v) =
     (if len v = 0 then Returns (None, v)
      else case malloc a (elem_size v) of
        None \<Rightarrow> Returns (None, v)
      | Some element \<Rightarrow>
          if \<not> live (inner v) then Undefined
          else
            (case memcpy (bytes element) 0 (bytes (inner v)) (VEC_ADDR_OF v (len v - 1))
                    (unat (elem_size v)) of
               None \<Rightarrow> Undefined
             | Some m \<Rightarrow>
                 Returns (Some (element\<lparr>bytes := m\<rparr>), v\<lparr>len := len v - 1\<rparr>)))"

definition vec_get :: "vector option \<Rightarrow> size_t \<Rightarrow> (ptr \<times> vector) outcome" where
  "vec_get vec index =
     and_then (vec_validate_idx vec index)
       (\<lambda>_. case vec of
               None \<Rightarrow> Undefined
             | Some v \<Rightarrow> Returns (Ptr (base (inner v)) (VEC_ADDR_OF v index), v))"

definition vec_remove :: "vector option \<Rightarrow> size_t \<Rightarrow> (unit \<times> vector) outcome" where
  "vec_remove vec index =
     and_then (vec_validate_idx vec index)
       (\<lambda>_. case vec of
               None \<Rightarrow> Undefined
             | Some v \<Rightarrow>
                 (case (if index \<noteq> len v - 1
                        then (let nbytes = (len v - 1) - index;
                                  nbytes = nbytes * elem_size v
                              in if \<not> live (inner v) then None
                                 else memmove (bytes (inner v)) (VEC_ADDR_OF v index)
                                        (bytes (inner v)) (VEC_ADDR_OF v (index + 1))
                                        (unat nbytes))
                        else Some (bytes (inner v))) of
                    None \<Rightarrow> Undefined
                  | Some m \<Rightarrow>
                      Returns ((), v\<lparr>inner := (inner v)\<lparr>bytes := m\<rparr>, len := len v - 1\<rparr>)))"

definition vec_swap_remove :: "vector option \<Rightarrow> size_t \<Rightarrow> (unit \<times> vector) outcome" where
  "vec_swap_remove vec index =
     and_then (vec_validate_idx vec index)
       (\<lambda>_. case vec of
               None \<Rightarrow> Undefined
             | Some v \<Rightarrow>
                 (case (if 2 \<le> len v
                        then if \<not> live (inner v) then None
                             else memmove (bytes (inner v)) (VEC_ADDR_OF v index)
                                    (bytes (inner v)) (VEC_ADDR_OF v (len v - 1))
                                    (unat (elem_size v))
                        else Some (bytes (inner v))) of
                    None \<Rightarrow> Undefined
                  | Some m \<Rightarrow>
                      Returns ((), v\<lparr>inner := (inner v)\<lparr>bytes := m\<rparr>, len := len v - 1\<rparr>)))"

fun vec_clear :: "vector option \<Rightarrow> (unit \<times> vector) outcome" where
  "vec_clear None = Undefined"
| "vec_clear (Some v) = Returns ((), v\<lparr>len := 0\<rparr>)"

text \<open>
  The three functions below take a \<^verbatim>\<open>vector**\<close>: \<open>None\<close> is a null \<^verbatim>\<open>vec\<close>, \<open>Some None\<close> a
  \<^verbatim>\<open>vec\<close> that points to a null handle. They return what the caller's handle holds
  afterwards. \<open>vec_leak\<close> hands out the block \<^verbatim>\<open>inner\<close> points to.
\<close>

fun vec_leak :: "vector option option \<Rightarrow> (block \<times> vector option) outcome" where
  "vec_leak (Some (Some v)) = Returns (inner v, None)"
| "vec_leak _ = Aborts"

fun vec_to_str :: "alloc \<Rightarrow> vector option option \<Rightarrow> (block \<times> vector option) outcome" where
  "vec_to_str a (Some (Some local_vec)) =
     (let n = len local_vec + 1
      in and_then (vec_resize a (Some local_vec) n)
           (\<lambda>(_, v1).
              and_then (vec_leak (Some (Some v1)))
                (\<lambda>(str, h).
                   if \<not> live str then Undefined
                   else case poke (bytes str) (unat (n - 1)) 0 of
                     None \<Rightarrow> Undefined
                   | Some m \<Rightarrow> Returns (str\<lparr>bytes := m\<rparr>, h))))"
| "vec_to_str a _ = Aborts"

fun vec_clone_str :: "alloc \<Rightarrow> vector option \<Rightarrow> (block option \<times> vector) outcome" where
  "vec_clone_str a None = Aborts"
| "vec_clone_str a (Some v) =
     (case malloc a ((len v + 1) * 1) of
        None \<Rightarrow> Returns (None, v)
      | Some str \<Rightarrow>
          if \<not> live (inner v) then Undefined
          else
            (case memcpy (bytes str) 0 (bytes (inner v)) 0 (unat (len v)) of
               None \<Rightarrow> Undefined
             | Some m \<Rightarrow>
                 (case poke m (unat (len v)) 0 of
                    None \<Rightarrow> Undefined
                  | Some m' \<Rightarrow> Returns (Some (str\<lparr>bytes := m'\<rparr>), v))))"

section \<open>Well-formed vectors and their elements\<close>

text \<open>
  The block behind \<^verbatim>\<open>inner\<close> is live and holds \<open>capacity\<close> slots of \<open>elem_size\<close> bytes, the
  byte count fits \<^verbatim>\<open>size_t\<close>, and the slots in use are among them.
\<close>

definition vec_ok :: "vector \<Rightarrow> bool" where
  "vec_ok v \<longleftrightarrow>
     live (inner v) \<and>
     len v \<le> capacity v \<and>
     length (bytes (inner v)) = unat (capacity v) * unat (elem_size v) \<and>
     unat (capacity v) * unat (elem_size v) < size_max"

definition slot :: "vector \<Rightarrow> nat \<Rightarrow> byte list" where
  "slot v i = take (unat (elem_size v)) (drop (i * unat (elem_size v)) (bytes (inner v)))"

definition elements :: "vector \<Rightarrow> byte list list" where
  "elements v = map (slot v) [0..<unat (len v)]"

section \<open>Sequences of operations\<close>

text \<open>
  A client's calls on one vector, each with the allocator's reply where the call may
  allocate. A run stops at the first call that does not return.
\<close>

datatype operation =
    Grow alloc
  | Resize alloc size_t
  | Push alloc source
  | Pop alloc
  | Remove size_t
  | Swap_remove size_t
  | Clear

fun apply_operation :: "operation \<Rightarrow> vector \<Rightarrow> vector outcome" where
  "apply_operation (Grow a) v = and_then (vec_grow a (Some v)) (\<lambda>(_, v'). Returns v')"
| "apply_operation (Resize a n) v = and_then (vec_resize a (Some v) n) (\<lambda>(_, v'). Returns v')"
| "apply_operation (Push a e) v = and_then (vec_push a (Some v) e) (\<lambda>(_, v'). Returns v')"
| "apply_operation (Pop a) v = and_then (vec_pop a (Some v)) (\<lambda>(_, v'). Returns v')"
| "apply_operation (Remove i) v = and_then (vec_remove (Some v) i) (\<lambda>(_, v'). Returns v')"
| "apply_operation (Swap_remove i) v =
     and_then (vec_swap_remove (Some v) i) (\<lambda>(_, v'). Returns v')"
| "apply_operation Clear v = and_then (vec_clear (Some v)) (\<lambda>(_, v'). Returns v')"

text \<open>The vector before the first call and after every call that returned.\<close>

fun trace :: "operation list \<Rightarrow> vector \<Rightarrow> vector list" where
  "trace [] v = [v]"
| "trace (x # xs) v =
     v # (case apply_operation x v of Returns v' \<Rightarrow> trace xs v' | _ \<Rightarrow> [])"

section \<open>Basic facts\<close>

lemma and_then_simps [simp]:
  "and_then Aborts f = Aborts"
  "and_then Undefined f = Undefined"
  "and_then (Returns x) f = f x"
  by (simp_all add: and_then_def)

lemma unat_mult_small:
  fixes i es :: size_t
  assumes "unat i * unat es < size_max"
  shows "unat (i * es) = unat i * unat es"
  using assms by (simp add: unat_word_ariths size_max_def)

lemma addr_of_ok:
  assumes "vec_ok v" and "i \<le> capacity v"
  shows "VEC_ADDR_OF v i = unat i * unat (elem_size v)"
proof -
  have "unat i \<le> unat (capacity v)"
    using assms(2) by (simp add: word_le_nat_alt)
  then have "unat i * unat (elem_size v) \<le> unat (capacity v) * unat (elem_size v)"
    by (rule mult_le_mono1)
  moreover have "unat (capacity v) * unat (elem_size v) < size_max"
    using assms(1) by (simp add: vec_ok_def)
  ultimately have "unat i * unat (elem_size v) < size_max"
    by (rule le_less_trans)
  then show ?thesis
    by (simp add: VEC_ADDR_OF_def unat_mult_small)
qed

lemma memmove_length:
  "memmove dst doff src soff n = Some m \<Longrightarrow> length m = length dst"
  by (auto simp: memmove_def split: if_splits)

lemma slot_prefix:
  assumes "take k xs = take k ys" and "(Suc j) * es \<le> k"
  shows "take es (drop (j * es) xs) = take es (drop (j * es) ys)"
proof -
  have "take es (drop (j * es) xs) = take es (drop (j * es) (take k xs))"
    using assms(2) by (simp add: drop_take min_def)
  also have "\<dots> = take es (drop (j * es) (take k ys))"
    by (simp add: assms(1))
  also have "\<dots> = take es (drop (j * es) ys)"
    using assms(2) by (simp add: drop_take min_def)
  finally show ?thesis .
qed

section \<open>Resizing\<close>

lemma reallocarray_Some:
  assumes "reallocarray a old n es = (Some p, old')"
  shows "length (bytes p) = unat n * unat es"
    and "unat n * unat es < size_max"
    and "take (min (length (bytes old)) (unat n * unat es)) (bytes p) =
         take (min (length (bytes old)) (unat n * unat es)) (bytes old)"
    and "\<exists>junk. a = Grant (base p) junk"
    and "live p"
    and "0 < unat n * unat es"
  using assms
  by (auto simp: reallocarray_def min_def split: if_splits alloc.splits)

lemma reallocarray_None:
  assumes "reallocarray a old n es = (None, old')"
  shows "old' = old \<or> unat n * unat es = 0 \<and> old' = old\<lparr>live := False\<rparr>"
  using assms
  by (auto simp: reallocarray_def split: if_splits alloc.splits)

lemma reallocarray_overflow:
  "size_max \<le> unat n * unat es \<Longrightarrow> reallocarray a old n es = (None, old)"
  by (simp add: reallocarray_def)

lemma reallocarray_zero:
  assumes "unat n * unat es = 0"
  shows "reallocarray a old n es = (None, old\<lparr>live := False\<rparr>)"
  unfolding reallocarray_def assms by (simp add: size_max_def)

lemma reallocarray_Refuse:
  "0 < unat n * unat es \<Longrightarrow> reallocarray Refuse old n es = (None, old)"
  by (simp add: reallocarray_def)

lemma vec_resize_cases:
  "vec_resize a (Some v) n =
     (if \<not> live (inner v) then Undefined
      else case reallocarray a (inner v) n (elem_size v) of
        (None, old) \<Rightarrow> Returns (False, v\<lparr>inner := old\<rparr>)
      | (Some p, old) \<Rightarrow>
          Returns (True, v\<lparr>inner := p, capacity := n, len := min (len v) n\<rparr>))"
  by (auto simp: Let_def min_def split: option.splits prod.splits)

lemma vec_resize_True:
  assumes "vec_resize a (Some v) n = Returns (True, v')"
  shows "\<exists>p old. reallocarray a (inner v) n (elem_size v) = (Some p, old) \<and>
           v' = v\<lparr>inner := p, capacity := n, len := min (len v) n\<rparr>"
  using assms
  by (auto simp: vec_resize_cases simp del: vec_resize.simps
      split: if_splits option.splits prod.splits)

lemma vec_resize_False:
  assumes "vec_resize a (Some v) n = Returns (False, v')"
  shows "v' = v \<or>
         unat n * unat (elem_size v) = 0 \<and> v' = v\<lparr>inner := (inner v)\<lparr>live := False\<rparr>\<rparr>"
  using assms
  by (auto simp: vec_resize_cases simp del: vec_resize.simps
      split: if_splits option.splits prod.splits dest!: reallocarray_None)

lemma vec_resize_ok:
  assumes "vec_resize a (Some v) n = Returns (True, v')"
  shows "vec_ok v'"
proof -
  from vec_resize_True [OF assms] obtain p old where
    r: "reallocarray a (inner v) n (elem_size v) = (Some p, old)" and
    v': "v' = v\<lparr>inner := p, capacity := n, len := min (len v) n\<rparr>"
    by blast
  show ?thesis
    using reallocarray_Some(1,2,5) [OF r] by (simp add: v' vec_ok_def)
qed

lemma slot_resize:
  assumes ok: "vec_ok v" and r: "reallocarray a (inner v) n (elem_size v) = (Some p, old)"
    and j: "j < unat (capacity v)" "j < unat n"
  shows "slot (v\<lparr>inner := p, capacity := n, len := min (len v) n\<rparr>) j = slot v j"
proof -
  let ?es = "unat (elem_size v)"
  let ?k = "min (length (bytes (inner v))) (unat n * ?es)"
  have "Suc j * ?es \<le> unat (capacity v) * ?es" "Suc j * ?es \<le> unat n * ?es"
    using j by (simp_all add: Suc_leI mult_le_mono1 del: mult_Suc)
  then have le: "Suc j * ?es \<le> ?k"
    using ok by (simp add: vec_ok_def)
  have "take ?es (drop (j * ?es) (bytes p)) = take ?es (drop (j * ?es) (bytes (inner v)))"
    using reallocarray_Some(3) [OF r] le by (rule slot_prefix)
  then show ?thesis
    by (simp add: slot_def)
qed

text \<open>
  What \<open>vec_resize\<close> does whenever the request is for at least one byte: it returns on every
  live vector; \<open>false\<close> comes with the vector exactly as it was, and is the answer when
  \<open>num_elements * elem_size\<close> does not fit \<^verbatim>\<open>size_t\<close> or the allocator refuses; \<open>true\<close> comes
  with the capacity \<open>num_elements\<close>, the length cut down to it, and a block of
  \<open>num_elements * elem_size\<close> bytes that agrees with the old one on every byte both have.
\<close>

lemma vec_resize_nonzero:
  assumes nz: "0 < unat n * unat (elem_size v)" and lv: "live (inner v)"
  shows "\<exists>g v'. vec_resize a (Some v) n = Returns (g, v')"
    and "vec_resize a (Some v) n = Returns (False, v') \<Longrightarrow> v' = v"
    and "size_max \<le> unat n * unat (elem_size v) \<Longrightarrow>
           vec_resize a (Some v) n = Returns (False, v)"
    and "vec_resize Refuse (Some v) n = Returns (False, v)"
    and "vec_resize a (Some v) n = Returns (True, v') \<Longrightarrow>
           capacity v' = n \<and> len v' = min (len v) n \<and> elem_size v' = elem_size v \<and>
           live (inner v') \<and> length (bytes (inner v')) = unat n * unat (elem_size v) \<and>
           take (min (length (bytes (inner v))) (unat n * unat (elem_size v)))
             (bytes (inner v')) =
           take (min (length (bytes (inner v))) (unat n * unat (elem_size v)))
             (bytes (inner v))"
proof -
  show "\<exists>g v'. vec_resize a (Some v) n = Returns (g, v')"
    using lv by (auto simp: vec_resize_cases simp del: vec_resize.simps
        split: option.splits prod.splits)
  show "v' = v" if "vec_resize a (Some v) n = Returns (False, v')"
    using vec_resize_False [OF that] nz by simp
  show "vec_resize a (Some v) n = Returns (False, v)"
    if "size_max \<le> unat n * unat (elem_size v)"
    using that lv by (simp add: vec_resize_cases reallocarray_overflow del: vec_resize.simps)
  show "vec_resize Refuse (Some v) n = Returns (False, v)"
    using nz lv by (simp add: vec_resize_cases reallocarray_Refuse del: vec_resize.simps)
  show "capacity v' = n \<and> len v' = min (len v) n \<and> elem_size v' = elem_size v \<and>
           live (inner v') \<and> length (bytes (inner v')) = unat n * unat (elem_size v) \<and>
           take (min (length (bytes (inner v))) (unat n * unat (elem_size v)))
             (bytes (inner v')) =
           take (min (length (bytes (inner v))) (unat n * unat (elem_size v)))
             (bytes (inner v))"
    if "vec_resize a (Some v) n = Returns (True, v')"
  proof -
    from vec_resize_True [OF that] obtain p old where
      r: "reallocarray a (inner v) n (elem_size v) = (Some p, old)" and
      v': "v' = v\<lparr>inner := p, capacity := n, len := min (len v) n\<rparr>"
      by blast
    show ?thesis
      using reallocarray_Some(1,3,5) [OF r] by (simp add: v')
  qed
qed

text \<open>
  Claim C3. The claim says that a resize that fails leaves the vector's storage intact and
  that a resize that succeeds makes the capacity \<open>num_elements\<close>. The code does so for every
  request of at least one byte (\<open>vec_resize_nonzero\<close>), but not for a request of zero bytes,
  that is for \<open>num_elements = 0\<close> or a vector of elements of size 0: \<^verbatim>\<open>reallocarray\<close> then
  frees the block and returns \<^verbatim>\<open>NULL\<close>, which \<open>vec_resize\<close> takes for a failed reallocation.
  It returns \<open>false\<close> with capacity and length as they were and \<open>inner\<close> pointing to the
  freed block; it never succeeds. So \<open>vec_resize(vec, 0)\<close> on the vector that
  \<open>vec_init(4, 1)\<close> returns reports a failure and has freed the storage, and the next
  \<open>vec_push\<close> writes into the freed block.
\<close>

theorem vec_resize_zero_bytes:
  "vec_init True (Grant 16 junk) 4 1 =
     Some \<lparr>inner = \<lparr>base = 16, bytes = [0, 0, 0, 0], live = True\<rparr>,
           capacity = 4, len = 0, elem_size = 1\<rparr> \<and>
   vec_resize a
     (Some \<lparr>inner = \<lparr>base = 16, bytes = [0, 0, 0, 0], live = True\<rparr>,
            capacity = 4, len = 0, elem_size = 1\<rparr>) 0 =
     Returns (False,
       \<lparr>inner = \<lparr>base = 16, bytes = [0, 0, 0, 0], live = False\<rparr>,
        capacity = 4, len = 0, elem_size = 1\<rparr>) \<and>
   vec_push a'
     (Some \<lparr>inner = \<lparr>base = 16, bytes = [0, 0, 0, 0], live = False\<rparr>,
            capacity = 4, len = 0, elem_size = 1\<rparr>) element = Undefined \<and>
   vec_resize a (Some v) 0 =
     (if live (inner v) then Returns (False, v\<lparr>inner := (inner v)\<lparr>live := False\<rparr>\<rparr>)
      else Undefined) \<and>
   vec_resize a
     (Some \<lparr>inner = \<lparr>base = 16, bytes = [1, 2, 3, 4], live = True\<rparr>,
            capacity = 4, len = 3, elem_size = 1\<rparr>) 0 =
     Returns (False,
       \<lparr>inner = \<lparr>base = 16, bytes = [1, 2, 3, 4], live = False\<rparr>,
        capacity = 4, len = 3, elem_size = 1\<rparr>) \<and>
   vec_resize a
     (Some \<lparr>inner = \<lparr>base = 16, bytes = [], live = True\<rparr>,
            capacity = 4, len = 0, elem_size = 0\<rparr>) 6 =
     Returns (False,
       \<lparr>inner = \<lparr>base = 16, bytes = [], live = False\<rparr>,
        capacity = 4, len = 0, elem_size = 0\<rparr>)"
proof -
  have "replicate 4 (0 :: byte) = [0, 0, 0, 0]"
    by (simp add: eval_nat_numeral)
  then have "vec_init True (Grant 16 junk) 4 1 =
     Some \<lparr>inner = \<lparr>base = 16, bytes = [0, 0, 0, 0], live = True\<rparr>,
           capacity = 4, len = 0, elem_size = 1\<rparr>"
    by (simp add: vec_init_def calloc_def size_max_def)
  moreover have "vec_push a'
     (Some \<lparr>inner = \<lparr>base = 16, bytes = [0, 0, 0, 0], live = False\<rparr>,
            capacity = 4, len = 0, elem_size = 1\<rparr>) element = Undefined"
    by (simp add: word_le_nat_alt split: option.splits)
  ultimately show ?thesis
    by (simp add: vec_resize_cases reallocarray_zero del: vec_resize.simps vec_push.simps)
qed

section \<open>Bounds validation\<close>

text \<open>
  Claim C5. \<open>vec_validate_idx\<close>, and with it \<open>vec_get\<close>, \<open>vec_remove\<close> and
  \<open>vec_swap_remove\<close>, aborts the process exactly when the handle is \<^verbatim>\<open>NULL\<close> or the index
  is at least the length (the index equal to the length included). With a handle that is
  not null and an index below the length the check returns, \<open>vec_get\<close> returns the
  address of the slot, and neither removal aborts.
\<close>

theorem indexing_aborts_iff:
  "(vec_validate_idx vec i = Aborts \<longleftrightarrow> vec = None \<or> (\<exists>v. vec = Some v \<and> len v \<le> i)) \<and>
   (vec_get vec i = Aborts \<longleftrightarrow> vec = None \<or> (\<exists>v. vec = Some v \<and> len v \<le> i)) \<and>
   (vec_remove vec i = Aborts \<longleftrightarrow> vec = None \<or> (\<exists>v. vec = Some v \<and> len v \<le> i)) \<and>
   (vec_swap_remove vec i = Aborts \<longleftrightarrow> vec = None \<or> (\<exists>v. vec = Some v \<and> len v \<le> i)) \<and>
   (\<forall>v. vec = Some v \<and> i < len v \<longrightarrow>
        vec_validate_idx vec i = Returns () \<and>
        vec_get vec i = Returns (Ptr (base (inner v)) (VEC_ADDR_OF v i), v) \<and>
        vec_remove vec i \<noteq> Aborts \<and> vec_swap_remove vec i \<noteq> Aborts)"
  by (cases vec)
     (auto simp: vec_get_def vec_remove_def vec_swap_remove_def Let_def
           split: option.splits if_splits)

theorem indexing_aborts_iff_witness:
  "vec_get (Some \<lparr>inner = \<lparr>base = 16, bytes = [1, 2, 3, 4], live = True\<rparr>,
                  capacity = 4, len = 3, elem_size = 1\<rparr>) 3
     = Aborts \<and>
   vec_remove None 0 = Aborts \<and>
   vec_swap_remove (Some \<lparr>inner = \<lparr>base = 16, bytes = [1, 2, 3, 4], live = True\<rparr>,
                          capacity = 4, len = 3, elem_size = 1\<rparr>) 4
     = Aborts \<and>
   vec_get (Some \<lparr>inner = \<lparr>base = 16, bytes = [1, 2, 3, 4], live = True\<rparr>,
                  capacity = 4, len = 3, elem_size = 1\<rparr>) 2
     = Returns (Ptr 16 2,
         \<lparr>inner = \<lparr>base = 16, bytes = [1, 2, 3, 4], live = True\<rparr>,
          capacity = 4, len = 3, elem_size = 1\<rparr>)"
  using
    indexing_aborts_iff [of
      "Some \<lparr>inner = \<lparr>base = 16, bytes = [1, 2, 3, 4], live = True\<rparr>,
             capacity = 4, len = 3, elem_size = 1\<rparr>" 3]
    indexing_aborts_iff [of None 0]
    indexing_aborts_iff [of
      "Some \<lparr>inner = \<lparr>base = 16, bytes = [1, 2, 3, 4], live = True\<rparr>,
             capacity = 4, len = 3, elem_size = 1\<rparr>" 4]
    indexing_aborts_iff [of
      "Some \<lparr>inner = \<lparr>base = 16, bytes = [1, 2, 3, 4], live = True\<rparr>,
             capacity = 4, len = 3, elem_size = 1\<rparr>" 2]
  by (simp add: VEC_ADDR_OF_def)

section \<open>Copying out as a string\<close>

text \<open>
  Claim C9. The claim says that \<open>vec_clone_str\<close> returns \<^verbatim>\<open>NULL\<close> both when the allocation
  fails and when it is handed a null vector, as the comment above the function does. It
  does so when the allocation fails, leaving the vector as it was; but on a null
  vector its first statement, \<^verbatim>\<open>assert(vec != NULL)\<close>, terminates the process.
\<close>

theorem vec_clone_str_null_aborts:
  "vec_clone_str a None = Aborts \<and> vec_clone_str Refuse (Some v) = Returns (None, v)"
  by (simp add: malloc_def)

section \<open>Growth\<close>

lemma unat_candidate:
  fixes c :: size_t
  shows "unat ((c * 3) div 2) = ((unat c * 3) mod size_max) div 2"
  by (simp add: unat_div unat_word_ariths size_max_def)

lemma candidate_no_overflow:
  fixes c :: size_t
  assumes "3 * unat c < size_max"
  shows "unat ((c * 3) div 2) = 3 * unat c div 2"
  using assms by (simp add: unat_candidate mult.commute)

lemma candidate_overflow:
  fixes c :: size_t
  assumes "size_max \<le> 3 * unat c"
  shows "(c * 3) div 2 \<le> c"
proof -
  have lt: "unat c < size_max"
    using unsigned_less [of c, where ?'a = nat] by (simp add: size_max_def)
  have "(unat c * 3) mod size_max = (unat c * 3 - size_max) mod size_max"
    using assms by (simp add: le_mod_geq mult.commute)
  also have "\<dots> \<le> unat c * 3 - size_max"
    by (rule mod_less_eq_dividend)
  finally have "(unat c * 3) mod size_max \<le> 2 * unat c"
    using lt by simp
  then have "((unat c * 3) mod size_max) div 2 \<le> unat c"
    by simp
  then show ?thesis
    by (simp add: word_le_nat_alt unat_candidate)
qed

lemma candidate_le_iff:
  fixes c :: size_t
  shows "(c * 3) div 2 \<le> c \<longleftrightarrow> unat c < 2 \<or> size_max \<le> 3 * unat c"
proof (cases "3 * unat c < size_max")
  case True
  then show ?thesis
    by (simp add: word_le_nat_alt candidate_no_overflow) arith
next
  case False
  then show ?thesis
    using candidate_overflow [of c] by simp
qed

lemma vec_grow_cases:
  "vec_grow a (Some v) =
     (if (capacity v * 3) div 2 \<le> capacity v then Returns (False, v)
      else vec_resize a (Some v) ((capacity v * 3) div 2))"
  by (simp add: Let_def del: vec_resize.simps)

lemma vec_grow_False:
  assumes "vec_grow a (Some v) = Returns (False, v')"
  shows "v' = v \<or> v' = v\<lparr>inner := (inner v)\<lparr>live := False\<rparr>\<rparr>"
proof (cases "(capacity v * 3) div 2 \<le> capacity v")
  case True
  with assms show ?thesis
    by (simp add: vec_grow_cases del: vec_grow.simps)
next
  case False
  with assms have "vec_resize a (Some v) ((capacity v * 3) div 2) = Returns (False, v')"
    by (simp add: vec_grow_cases del: vec_grow.simps vec_resize.simps)
  from vec_resize_False [OF this] show ?thesis by blast
qed

lemma vec_grow_True:
  assumes "vec_grow a (Some v) = Returns (True, v')"
  shows "capacity v < (capacity v * 3) div 2"
    and "\<exists>p old. reallocarray a (inner v) ((capacity v * 3) div 2) (elem_size v) =
             (Some p, old) \<and>
           v' = v\<lparr>inner := p, capacity := (capacity v * 3) div 2,
                  len := min (len v) ((capacity v * 3) div 2)\<rparr>"
proof -
  show lt: "capacity v < (capacity v * 3) div 2"
    using assms by (auto simp: vec_grow_cases simp del: vec_grow.simps vec_resize.simps
        split: if_splits)
  then have "vec_resize a (Some v) ((capacity v * 3) div 2) = Returns (True, v')"
    using assms by (simp add: vec_grow_cases not_le [symmetric]
        del: vec_grow.simps vec_resize.simps)
  then show "\<exists>p old. reallocarray a (inner v) ((capacity v * 3) div 2) (elem_size v) =
             (Some p, old) \<and>
           v' = v\<lparr>inner := p, capacity := (capacity v * 3) div 2,
                  len := min (len v) ((capacity v * 3) div 2)\<rparr>"
    by (rule vec_resize_True)
qed


text \<open>
  What \<open>vec_grow\<close> does by its arithmetic. The candidate \<open>(capacity * 3) / 2\<close>, computed in
  \<^verbatim>\<open>size_t\<close>, is at most the capacity exactly when the capacity is 0 or 1 or \<open>capacity * 3\<close>
  does not fit \<^verbatim>\<open>size_t\<close>; \<open>vec_grow\<close> then returns \<open>false\<close> and the vector is as it was.
  Otherwise the candidate is \<open>\<lfloor>capacity * 3 / 2\<rfloor>\<close>, more than the capacity, and the result is
  that of \<open>vec_resize\<close> with it; when that is \<open>true\<close> the capacity is the candidate.
\<close>

lemma vec_grow_by_design:
  "(capacity v * 3) div 2 \<le> capacity v \<longleftrightarrow>
     unat (capacity v) < 2 \<or> size_max \<le> 3 * unat (capacity v)"
  "unat (capacity v) < 2 \<or> size_max \<le> 3 * unat (capacity v) \<Longrightarrow>
     vec_grow a (Some v) = Returns (False, v)"
  "2 \<le> unat (capacity v) \<Longrightarrow> 3 * unat (capacity v) < size_max \<Longrightarrow>
     vec_grow a (Some v) = vec_resize a (Some v) ((capacity v * 3) div 2) \<and>
     unat ((capacity v * 3) div 2) = 3 * unat (capacity v) div 2 \<and>
     unat (capacity v) < 3 * unat (capacity v) div 2"
  "vec_grow a (Some v) = Returns (True, v') \<Longrightarrow>
     unat (capacity v') = 3 * unat (capacity v) div 2 \<and> capacity v < capacity v'"
proof -
  show iff: "(capacity v * 3) div 2 \<le> capacity v \<longleftrightarrow>
     unat (capacity v) < 2 \<or> size_max \<le> 3 * unat (capacity v)"
    by (rule candidate_le_iff)
  show "vec_grow a (Some v) = Returns (False, v)"
    if "unat (capacity v) < 2 \<or> size_max \<le> 3 * unat (capacity v)"
    using that iff by (simp add: vec_grow_cases del: vec_grow.simps)
  show "vec_grow a (Some v) = vec_resize a (Some v) ((capacity v * 3) div 2) \<and>
     unat ((capacity v * 3) div 2) = 3 * unat (capacity v) div 2 \<and>
     unat (capacity v) < 3 * unat (capacity v) div 2"
    if "2 \<le> unat (capacity v)" "3 * unat (capacity v) < size_max"
  proof -
    have "\<not> (capacity v * 3) div 2 \<le> capacity v"
      unfolding iff using that by simp
    then have "vec_grow a (Some v) = vec_resize a (Some v) ((capacity v * 3) div 2)"
      by (simp add: vec_grow_cases del: vec_grow.simps vec_resize.simps)
    moreover have "unat ((capacity v * 3) div 2) = 3 * unat (capacity v) div 2"
      using that(2) by (rule candidate_no_overflow)
    moreover have "unat (capacity v) < 3 * unat (capacity v) div 2"
      using that(1) by arith
    ultimately show ?thesis by blast
  qed
  show "unat (capacity v') = 3 * unat (capacity v) div 2 \<and> capacity v < capacity v'"
    if g: "vec_grow a (Some v) = Returns (True, v')"
  proof -
    from vec_grow_True [OF g] obtain p old where
      lt: "capacity v < (capacity v * 3) div 2" and
      v': "v' = v\<lparr>inner := p, capacity := (capacity v * 3) div 2,
                  len := min (len v) ((capacity v * 3) div 2)\<rparr>"
      by blast
    from lt have "\<not> (capacity v * 3) div 2 \<le> capacity v"
      by (simp add: not_le)
    then have "3 * unat (capacity v) < size_max"
      unfolding iff by simp
    then have "unat (capacity v') = 3 * unat (capacity v) div 2"
      using v' by (simp add: candidate_no_overflow)
    moreover have "capacity v < capacity v'"
      using lt v' by simp
    ultimately show ?thesis by blast
  qed
qed

text \<open>
  Claim C2. The claim says that growth from a capacity of at least 2 takes the capacity
  \<open>c\<close> to \<open>\<lfloor>c * 3 / 2\<rfloor>\<close> at every step until \<open>c * 3\<close> overflows, and that \<open>vec_grow\<close> then
  returns failure rather than crashing. The arithmetic of the code is as the claim says
  (\<open>vec_grow_by_design\<close>). But for a vector of elements of size 0, such as the one
  \<open>vec_init(4, 0)\<close> returns, the \<open>vec_resize\<close> that \<open>vec_grow\<close> delegates to asks
  \<^verbatim>\<open>reallocarray\<close> for zero bytes: the block is freed, \<open>vec_grow\<close> returns \<open>false\<close> although
  the candidate 6 is more than the capacity 4 and whatever the allocator would grant, the
  capacity stays 4 and \<open>inner\<close> dangles. A second \<open>vec_grow\<close> hands the freed block to
  \<^verbatim>\<open>reallocarray\<close>, which is undefined.
\<close>

theorem vec_grow_zero_size:
  "vec_init True (Grant 16 junk) 4 0 =
     Some \<lparr>inner = \<lparr>base = 16, bytes = [], live = True\<rparr>,
           capacity = 4, len = 0, elem_size = 0\<rparr> \<and>
   (4 :: size_t) < (4 * 3) div 2 \<and>
   vec_grow a
     (Some \<lparr>inner = \<lparr>base = 16, bytes = [], live = True\<rparr>,
            capacity = 4, len = 0, elem_size = 0\<rparr>) =
     Returns (False,
       \<lparr>inner = \<lparr>base = 16, bytes = [], live = False\<rparr>,
        capacity = 4, len = 0, elem_size = 0\<rparr>) \<and>
   vec_grow a'
     (Some \<lparr>inner = \<lparr>base = 16, bytes = [], live = False\<rparr>,
            capacity = 4, len = 0, elem_size = 0\<rparr>) = Undefined \<and>
   trace [Grow a, Grow a']
     \<lparr>inner = \<lparr>base = 16, bytes = [], live = True\<rparr>,
      capacity = 4, len = 0, elem_size = 0\<rparr> =
     [\<lparr>inner = \<lparr>base = 16, bytes = [], live = True\<rparr>,
       capacity = 4, len = 0, elem_size = 0\<rparr>,
      \<lparr>inner = \<lparr>base = 16, bytes = [], live = False\<rparr>,
       capacity = 4, len = 0, elem_size = 0\<rparr>]"
  by (simp add: vec_init_def calloc_def size_max_def vec_resize_cases reallocarray_zero
      del: vec_resize.simps)

section \<open>Pushing and popping\<close>

lemma unat_succ_less:
  fixes x y :: size_t
  assumes "x < y"
  shows "unat (x + 1) = unat x + 1"
proof -
  have "unat x < unat y" using assms by (simp add: word_less_nat_alt)
  moreover have "unat y < 2 ^ 64" using unsigned_less [of y, where ?'a = nat] by simp
  ultimately have "unat x + 1 < 2 ^ 64" by simp
  then show ?thesis by (simp add: unat_word_ariths)
qed

lemma unat_pred_pos:
  fixes x :: size_t
  assumes "x \<noteq> 0"
  shows "unat (x - 1) = unat x - 1"
  using assms by (simp add: unat_minus_one)

lemma store_slot:
  assumes m: "memmove old (l * es) src 0 es = Some m"
  shows "length m = length old"
    and "take es (drop (l * es) m) = take es src"
    and "take (l * es) m = take (l * es) old"
    and "drop (Suc l * es) m = drop (Suc l * es) old"
  using m by (auto simp: memmove_def min_def add.commute split: if_splits)

lemma room_for_slot:
  assumes "vec_ok w" and "len w < capacity w"
  shows "Suc (unat (len w)) * unat (elem_size w) \<le> length (bytes (inner w))"
proof -
  have "Suc (unat (len w)) \<le> unat (capacity w)"
    using assms(2) by (simp add: word_less_nat_alt)
  then have "Suc (unat (len w)) * unat (elem_size w) \<le> unat (capacity w) * unat (elem_size w)"
    by (rule mult_le_mono1)
  then show ?thesis using assms(1) by (simp add: vec_ok_def)
qed


lemma deref_length:
  "deref blk element n = Some src \<Longrightarrow> length src = n"
  by (induction blk element n rule: deref.induct) (auto split: if_splits)

lemma push_memmove:
  assumes ok: "vec_ok w" and room: "len w < capacity w"
    and src: "length src = unat (elem_size w)"
  shows "memmove (bytes (inner w)) (VEC_ADDR_OF w (len w)) src 0 (unat (elem_size w)) =
           Some (take (unat (len w) * unat (elem_size w)) (bytes (inner w)) @ src @
                 drop (Suc (unat (len w)) * unat (elem_size w)) (bytes (inner w)))"
    and "memmove (bytes (inner w)) (unat (len w) * unat (elem_size w)) src 0
           (unat (elem_size w)) =
           Some (take (unat (len w) * unat (elem_size w)) (bytes (inner w)) @ src @
                 drop (Suc (unat (len w)) * unat (elem_size w)) (bytes (inner w)))"
proof -
  have a: "VEC_ADDR_OF w (len w) = unat (len w) * unat (elem_size w)"
    using ok room by (simp add: addr_of_ok)
  have fit: "unat (len w) * unat (elem_size w) + unat (elem_size w) \<le>
        length (bytes (inner w))"
    using room_for_slot [OF ok room] by (simp add: add.commute)
  show "memmove (bytes (inner w)) (unat (len w) * unat (elem_size w)) src 0
           (unat (elem_size w)) =
           Some (take (unat (len w) * unat (elem_size w)) (bytes (inner w)) @ src @
                 drop (Suc (unat (len w)) * unat (elem_size w)) (bytes (inner w)))"
    using fit src by (simp add: memmove_def add.commute)
  then show "memmove (bytes (inner w)) (VEC_ADDR_OF w (len w)) src 0 (unat (elem_size w)) =
           Some (take (unat (len w) * unat (elem_size w)) (bytes (inner w)) @ src @
                 drop (Suc (unat (len w)) * unat (elem_size w)) (bytes (inner w)))"
    by (simp only: a)
qed

lemma vec_push_room:
  assumes ok: "vec_ok w" and room: "len w < capacity w"
    and el: "deref (inner w) element (unat (elem_size w)) = Some bs"
  shows "\<exists>v'. vec_push a (Some w) element =
            Returns (Ptr (base (inner w)) (unat (len w) * unat (elem_size w)), v') \<and>
          len v' = len w + 1 \<and> unat (len v') = unat (len w) + 1 \<and>
          capacity v' = capacity w \<and> elem_size v' = elem_size w \<and>
          base (inner v') = base (inner w) \<and>
          bytes (inner v') =
            take (unat (len w) * unat (elem_size w)) (bytes (inner w)) @ bs @
            drop (Suc (unat (len w)) * unat (elem_size w)) (bytes (inner w)) \<and>
          slot v' (unat (len w)) = bs \<and>
          (\<forall>j<unat (len w). slot v' j = slot w j) \<and> vec_ok v'"
proof -
  let ?L = "unat (len w)" and ?es = "unat (elem_size w)"
  define m where
    "m = take (?L * ?es) (bytes (inner w)) @ bs @ drop (Suc ?L * ?es) (bytes (inner w))"
  have lbs: "length bs = ?es"
    using el by (rule deref_length)
  have m1: "memmove (bytes (inner w)) (VEC_ADDR_OF w (len w)) bs 0 ?es = Some m"
    and m2: "memmove (bytes (inner w)) (?L * ?es) bs 0 ?es = Some m"
    unfolding m_def using ok room lbs by (rule push_memmove)+
  have lv: "live (inner w)"
    using ok by (simp add: vec_ok_def)
  let ?v' = "w\<lparr>inner := (inner w)\<lparr>bytes := m\<rparr>, len := len w + 1\<rparr>"
  have a: "VEC_ADDR_OF (w\<lparr>inner := (inner w)\<lparr>bytes := m\<rparr>\<rparr>) (len w) = ?L * ?es"
    using addr_of_ok [OF ok, of "len w"] room by (simp add: VEC_ADDR_OF_def)
  have push: "vec_push a (Some w) element = Returns (Ptr (base (inner w)) (?L * ?es), ?v')"
  proof -
    have "\<not> capacity w \<le> len w" using room by (simp add: not_le)
    then show ?thesis
      using m1 a el lv by (simp add: Let_def del: vec_grow.simps)
  qed
  have suc: "unat (len w + 1) = ?L + 1"
    using room by (rule unat_succ_less)
  have s1: "slot ?v' ?L = bs"
    using store_slot(2) [OF m2] lbs by (simp add: slot_def)
  have s2: "slot ?v' j = slot w j" if "j < ?L" for j
  proof -
    have "Suc j * ?es \<le> ?L * ?es"
      using that by (simp add: Suc_leI mult_le_mono1 del: mult_Suc)
    with store_slot(3) [OF m2] show ?thesis
      by (simp add: slot_def slot_prefix del: mult_Suc)
  qed
  have ok': "vec_ok ?v'"
    using ok room suc store_slot(1) [OF m2]
    by (simp add: vec_ok_def word_le_nat_alt word_less_nat_alt)
  have "bytes (inner ?v') =
      take (?L * ?es) (bytes (inner w)) @ bs @ drop (Suc ?L * ?es) (bytes (inner w))"
    by (simp add: m_def)
  then show ?thesis
    using push suc s1 s2 ok' by (intro exI [of _ ?v']) simp
qed


lemma vec_grow_ok:
  assumes ok: "vec_ok v" and g: "vec_grow a (Some v) = Returns (True, w)"
  shows "vec_ok w" and "capacity v < capacity w" and "len w = len v"
    and "elem_size w = elem_size v"
    and "\<forall>j<unat (capacity v). slot w j = slot v j"
    and "take (length (bytes (inner v))) (bytes (inner w)) = bytes (inner v)"
proof -
  from vec_grow_True [OF g] obtain p old where
    lt: "capacity v < (capacity v * 3) div 2" and
    r: "reallocarray a (inner v) ((capacity v * 3) div 2) (elem_size v) = (Some p, old)" and
    w: "w = v\<lparr>inner := p, capacity := (capacity v * 3) div 2,
                  len := min (len v) ((capacity v * 3) div 2)\<rparr>"
    by blast
  have lv: "live (inner v)"
    using ok by (simp add: vec_ok_def)
  have "vec_resize a (Some v) ((capacity v * 3) div 2) = Returns (True, w)"
    using r w lv by (simp add: vec_resize_cases del: vec_resize.simps)
  then show "vec_ok w" by (rule vec_resize_ok)
  show "capacity v < capacity w" using lt w by simp
  have "len v \<le> capacity v"
    using ok by (simp add: vec_ok_def)
  with lt have "len v \<le> (capacity v * 3) div 2"
    by simp
  then show "len w = len v" using w by (simp add: min_def)
  show "elem_size w = elem_size v" using w by simp
  show "\<forall>j<unat (capacity v). slot w j = slot v j"
  proof (intro allI impI)
    fix j assume j: "j < unat (capacity v)"
    moreover have "j < unat ((capacity v * 3) div 2)"
      using j lt by (simp add: word_less_nat_alt)
    ultimately show "slot w j = slot v j"
      unfolding w using ok r by (rule_tac slot_resize)
  qed
  have "unat (capacity v) \<le> unat ((capacity v * 3) div 2)"
    using lt by (simp add: word_less_nat_alt)
  then have "unat (capacity v) * unat (elem_size v) \<le>
      unat ((capacity v * 3) div 2) * unat (elem_size v)"
    by (rule mult_le_mono1)
  then have "min (length (bytes (inner v)))
      (unat ((capacity v * 3) div 2) * unat (elem_size v)) = length (bytes (inner v))"
    using ok by (simp add: vec_ok_def)
  with reallocarray_Some(3) [OF r]
  show "take (length (bytes (inner v))) (bytes (inner w)) = bytes (inner v)"
    by (simp add: w)
qed


lemma vec_push_grown:
  assumes "capacity v \<le> len v" and "vec_grow a (Some v) = Returns (True, w)"
    and "len w < capacity w"
  shows "vec_push a (Some v) element = vec_push a' (Some w) element"
proof -
  have "\<not> capacity w \<le> len w" using assms(3) by (simp add: not_le)
  then show ?thesis
    using assms(1,2) by (simp del: vec_grow.simps)
qed

lemma vec_push_refused:
  assumes "capacity v \<le> len v" and "vec_grow a (Some v) = Returns (False, w)"
  shows "vec_push a (Some v) element = Returns (Null, w)"
  using assms by (simp del: vec_grow.simps)

text \<open>
  What \<open>vec_push\<close> does on a well-formed vector when the growth, if there is one, succeeds
  (\<open>w\<close> is the vector after it) and the element can be read through its pointer then: it
  returns the address of slot \<open>len\<close> in the block now behind \<^verbatim>\<open>inner\<close>; the block is the one
  before the store with exactly the \<open>elem_size\<close> bytes of that slot replaced by the
  element's, so that the slots \<open>0 .. len - 1\<close> hold what they held; the length is one more.
\<close>

lemma vec_push_stores:
  assumes ok: "vec_ok v"
    and w: "len v = capacity v \<and> vec_grow a (Some v) = Returns (True, w) \<or>
            len v < capacity v \<and> w = v"
    and el: "deref (inner w) element (unat (elem_size v)) = Some bs"
  shows "\<exists>v'. vec_push a (Some v) element =
                 Returns (Ptr (base (inner w)) (unat (len v) * unat (elem_size v)), v') \<and>
              len v' = len v + 1 \<and> unat (len v') = unat (len v) + 1 \<and>
              capacity v' = capacity w \<and> elem_size v' = elem_size v \<and>
              base (inner v') = base (inner w) \<and>
              bytes (inner v') =
                take (unat (len v) * unat (elem_size v)) (bytes (inner w)) @ bs @
                drop (Suc (unat (len v)) * unat (elem_size v)) (bytes (inner w)) \<and>
              slot v' (unat (len v)) = bs \<and>
              (\<forall>j<unat (len v). slot v' j = slot v j) \<and> vec_ok v'"
proof -
  from w consider (grown) "len v = capacity v" "vec_grow a (Some v) = Returns (True, w)"
    | (room) "len v < capacity v" "w = v"
    by blast
  then show ?thesis
  proof cases
    case room
    then show ?thesis
      using vec_push_room [OF ok _ _, of element bs a] el by simp
  next
    case grown
    note g = vec_grow_ok [OF ok grown(2)]
    have room: "len w < capacity w"
      using g(2,3) grown(1) by simp
    have el': "deref (inner w) element (unat (elem_size w)) = Some bs"
      using el g(4) by simp
    have eq: "vec_push a (Some v) element = vec_push a (Some w) element"
      using grown room by (intro vec_push_grown) simp_all
    have old: "slot w j = slot v j" if "j < unat (len v)" for j
      using that g(5) grown(1) by simp
    from vec_push_room [OF g(1) room el', of a] obtain v' where
      "vec_push a (Some w) element =
            Returns (Ptr (base (inner w)) (unat (len w) * unat (elem_size w)), v')"
      "len v' = len w + 1" "unat (len v') = unat (len w) + 1"
      "capacity v' = capacity w" "elem_size v' = elem_size w"
      "base (inner v') = base (inner w)"
      "bytes (inner v') =
            take (unat (len w) * unat (elem_size w)) (bytes (inner w)) @ bs @
            drop (Suc (unat (len w)) * unat (elem_size w)) (bytes (inner w))"
      "slot v' (unat (len w)) = bs"
      "\<forall>j<unat (len w). slot v' j = slot w j" "vec_ok v'"
      by blast
    then show ?thesis
      using eq old g(3,4) by (intro exI [of _ v']) (simp del: vec_push.simps)
  qed
qed

text \<open>
  Claim C1. The claim says that a push whose growth fails leaves the vector unmodified and
  that any other push stores the element and returns its slot. The code does so as long as
  the reallocation asks for at least one byte and the element does not lie in a block that
  the growth moves (\<open>vec_push_stores\<close>, \<open>vec_push_refused\<close>). It does not in two cases.
  \<^item> On a full vector of elements of size 0, such as the one \<open>vec_init(2, 0)\<close> returns
    after two pushes, the growth asks \<^verbatim>\<open>reallocarray\<close> for zero bytes, which frees the
    block and returns \<^verbatim>\<open>NULL\<close>: \<open>vec_push\<close> returns \<^verbatim>\<open>NULL\<close> and leaves \<open>inner\<close> pointing to
    the freed block.
  \<^item> When \<open>element\<close> points into the vector, as \<open>vec_push(vec, vec_get(vec, 0))\<close> has it, and
    the growth moves the block, \<^verbatim>\<open>memmove\<close> reads the element from the block that the
    reallocation has freed, which is undefined: the run of two pushes into the vector
    from \<open>vec_init(2, 1)\<close> and this third one ends there. With a growth in place the same
    push stores the element.
\<close>

theorem vec_push_failures:
  "vec_init True (Grant 16 junk) 2 0 =
     Some \<lparr>inner = \<lparr>base = 16, bytes = [], live = True\<rparr>,
           capacity = 2, len = 0, elem_size = 0\<rparr> \<and>
   trace [Push a1 (Object []), Push a2 (Object []), Push a3 (Object [])]
     \<lparr>inner = \<lparr>base = 16, bytes = [], live = True\<rparr>,
      capacity = 2, len = 0, elem_size = 0\<rparr> =
     [\<lparr>inner = \<lparr>base = 16, bytes = [], live = True\<rparr>,
       capacity = 2, len = 0, elem_size = 0\<rparr>,
      \<lparr>inner = \<lparr>base = 16, bytes = [], live = True\<rparr>,
       capacity = 2, len = 1, elem_size = 0\<rparr>,
      \<lparr>inner = \<lparr>base = 16, bytes = [], live = True\<rparr>,
       capacity = 2, len = 2, elem_size = 0\<rparr>,
      \<lparr>inner = \<lparr>base = 16, bytes = [], live = False\<rparr>,
       capacity = 2, len = 2, elem_size = 0\<rparr>] \<and>
   vec_push a
     (Some \<lparr>inner = \<lparr>base = 16, bytes = [], live = True\<rparr>,
            capacity = 2, len = 2, elem_size = 0\<rparr>) element =
     Returns (Null,
       \<lparr>inner = \<lparr>base = 16, bytes = [], live = False\<rparr>,
        capacity = 2, len = 2, elem_size = 0\<rparr>) \<and>
   vec_init True (Grant 16 junk) 2 1 =
     Some \<lparr>inner = \<lparr>base = 16, bytes = [0, 0], live = True\<rparr>,
           capacity = 2, len = 0, elem_size = 1\<rparr> \<and>
   trace [Push a1 (Object [7]), Push a2 (Object [8]), Push (Grant 32 junk') (Held (Ptr 16 0))]
     \<lparr>inner = \<lparr>base = 16, bytes = [0, 0], live = True\<rparr>,
      capacity = 2, len = 0, elem_size = 1\<rparr> =
     [\<lparr>inner = \<lparr>base = 16, bytes = [0, 0], live = True\<rparr>,
       capacity = 2, len = 0, elem_size = 1\<rparr>,
      \<lparr>inner = \<lparr>base = 16, bytes = [7, 0], live = True\<rparr>,
       capacity = 2, len = 1, elem_size = 1\<rparr>,
      \<lparr>inner = \<lparr>base = 16, bytes = [7, 8], live = True\<rparr>,
       capacity = 2, len = 2, elem_size = 1\<rparr>] \<and>
   vec_get
     (Some \<lparr>inner = \<lparr>base = 16, bytes = [7, 8], live = True\<rparr>,
            capacity = 2, len = 2, elem_size = 1\<rparr>) 0 =
     Returns (Ptr 16 0,
       \<lparr>inner = \<lparr>base = 16, bytes = [7, 8], live = True\<rparr>,
        capacity = 2, len = 2, elem_size = 1\<rparr>) \<and>
   vec_push (Grant 32 junk')
     (Some \<lparr>inner = \<lparr>base = 16, bytes = [7, 8], live = True\<rparr>,
            capacity = 2, len = 2, elem_size = 1\<rparr>) (Held (Ptr 16 0)) = Undefined \<and>
   vec_push (Grant 16 junk')
     (Some \<lparr>inner = \<lparr>base = 16, bytes = [7, 8], live = True\<rparr>,
            capacity = 2, len = 2, elem_size = 1\<rparr>) (Held (Ptr 16 0)) =
     Returns (Ptr 16 2,
       \<lparr>inner = \<lparr>base = 16, bytes = [7, 8, 7], live = True\<rparr>,
        capacity = 3, len = 3, elem_size = 1\<rparr>)"
proof -
  have "replicate 2 (0 :: byte) = [0, 0]"
    by (simp add: numeral_2_eq_2)
  then have "vec_init True (Grant 16 junk) 2 1 =
     Some \<lparr>inner = \<lparr>base = 16, bytes = [0, 0], live = True\<rparr>,
           capacity = 2, len = 0, elem_size = 1\<rparr>"
    by (simp add: vec_init_def calloc_def size_max_def)
  moreover have "vec_init True (Grant 16 junk) 2 0 =
     Some \<lparr>inner = \<lparr>base = 16, bytes = [], live = True\<rparr>,
           capacity = 2, len = 0, elem_size = 0\<rparr>"
    by (simp add: vec_init_def calloc_def size_max_def)
  ultimately show ?thesis
    by (simp add: vec_get_def VEC_ADDR_OF_def vec_resize_cases reallocarray_def size_max_def
      memmove_def upt_rec word_le_nat_alt word_less_nat_alt del: vec_resize.simps)
qed





section \<open>The length never exceeds the capacity\<close>

lemma succ_le_of_less:
  fixes x y :: size_t
  assumes "x < y"
  shows "x + 1 \<le> y"
  using assms unat_succ_less [OF assms]
  by (simp add: word_le_nat_alt word_less_nat_alt)

lemma pred_le:
  fixes x :: size_t
  assumes "x \<noteq> 0"
  shows "x - 1 \<le> x"
  using unat_pred_pos [OF assms] by (simp add: word_le_nat_alt)

lemma vec_resize_len_le:
  assumes "vec_resize a (Some v) n = Returns (g, v')" and "len v \<le> capacity v"
  shows "len v' \<le> capacity v'"
proof (cases g)
  case True
  with assms(1) have "vec_resize a (Some v) n = Returns (True, v')" by simp
  from vec_resize_True [OF this] show ?thesis by auto
next
  case False
  with assms(1) have "vec_resize a (Some v) n = Returns (False, v')" by simp
  from vec_resize_False [OF this] assms(2) show ?thesis by auto
qed

lemma vec_grow_len_le:
  assumes "vec_grow a (Some v) = Returns (g, v')" and "len v \<le> capacity v"
  shows "len v' \<le> capacity v'"
  using assms
  by (auto simp: vec_grow_cases simp del: vec_grow.simps vec_resize.simps
      split: if_splits intro: vec_resize_len_le)

lemma and_then_Returns:
  "and_then r f = Returns y \<Longrightarrow> \<exists>x. r = Returns x \<and> f x = Returns y"
  by (cases r) simp_all

lemma vec_push_len_le:
  assumes p: "vec_push a (Some v) element = Returns (r, v')" and le: "len v \<le> capacity v"
  shows "len v' \<le> capacity v'"
proof (cases "capacity v \<le> len v")
  case False
  then have "len v < capacity v" by (simp add: not_le)
  then have "len v + 1 \<le> capacity v" by (rule succ_le_of_less)
  with p False show ?thesis
    by (auto simp: Let_def simp del: vec_grow.simps split: option.splits if_splits)
next
  case True
  with p obtain g w where
    g: "vec_grow a (Some v) = Returns (g, w)"
    by (auto simp del: vec_grow.simps dest!: and_then_Returns)
  show ?thesis
  proof (cases g)
    case False
    with g True have "vec_push a (Some v) element = Returns (Null, w)"
      by (intro vec_push_refused [of v a w]) simp_all
    moreover have "len w \<le> capacity w"
      using g le by (rule vec_grow_len_le)
    ultimately show ?thesis using p by simp
  next
    case g_true: True
    from g g_true have gt: "vec_grow a (Some v) = Returns (True, w)" by simp
    from vec_grow_True [OF gt] obtain q old where
      lt: "capacity v < (capacity v * 3) div 2" and
      w: "w = v\<lparr>inner := q, capacity := (capacity v * 3) div 2,
                  len := min (len v) ((capacity v * 3) div 2)\<rparr>"
      by blast
    have "len v < (capacity v * 3) div 2"
      using le lt by simp
    then have "len w < capacity w"
      using w by (simp add: min_def)
    then have "len w + 1 \<le> capacity w"
      by (rule succ_le_of_less)
    with p True g g_true show ?thesis
      by (auto simp: Let_def simp del: vec_grow.simps split: option.splits if_splits)
  qed
qed

lemma vec_pop_len_le:
  assumes "vec_pop a (Some v) = Returns (r, v')" and "len v \<le> capacity v"
  shows "len v' \<le> capacity v'"
proof (cases "len v = 0")
  case True
  with assms show ?thesis by simp
next
  case False
  then have "len v - 1 \<le> len v" by (rule pred_le)
  with assms(2) have "len v - 1 \<le> capacity v" by simp
  with assms False show ?thesis
    by (auto split: option.splits if_splits)
qed

lemma vec_remove_len_le:
  assumes "vec_remove (Some v) i = Returns (r, v')" and "len v \<le> capacity v"
  shows "len v' \<le> capacity v'"
proof -
  have i: "i < len v"
    using assms(1) by (auto simp: vec_remove_def split: if_splits)
  then have "len v \<noteq> 0" by auto
  then have "len v - 1 \<le> len v" by (rule pred_le)
  with assms(2) have "len v - 1 \<le> capacity v" by simp
  with assms(1) i show ?thesis
    by (auto simp: vec_remove_def split: option.splits)
qed

lemma vec_swap_remove_len_le:
  assumes "vec_swap_remove (Some v) i = Returns (r, v')" and "len v \<le> capacity v"
  shows "len v' \<le> capacity v'"
proof -
  have i: "i < len v"
    using assms(1) by (auto simp: vec_swap_remove_def split: if_splits)
  then have "len v \<noteq> 0" by auto
  then have "len v - 1 \<le> len v" by (rule pred_le)
  with assms(2) have "len v - 1 \<le> capacity v" by simp
  with assms(1) i show ?thesis
    by (auto simp: vec_swap_remove_def split: option.splits)
qed

lemma apply_operation_len_le:
  assumes "apply_operation x v = Returns v'" and "len v \<le> capacity v"
  shows "len v' \<le> capacity v'"
proof (cases x)
  case (Grow a)
  with assms show ?thesis
    by (auto simp del: vec_grow.simps dest!: and_then_Returns intro: vec_grow_len_le)
next
  case (Resize a n)
  with assms show ?thesis
    by (auto simp del: vec_resize.simps dest!: and_then_Returns intro: vec_resize_len_le)
next
  case (Push a e)
  with assms show ?thesis
    by (auto simp del: vec_push.simps dest!: and_then_Returns intro: vec_push_len_le)
next
  case (Pop a)
  with assms show ?thesis
    by (auto simp del: vec_pop.simps dest!: and_then_Returns intro: vec_pop_len_le)
next
  case (Remove i)
  with assms show ?thesis
    by (auto dest!: and_then_Returns intro: vec_remove_len_le)
next
  case (Swap_remove i)
  with assms show ?thesis
    by (auto dest!: and_then_Returns intro: vec_swap_remove_len_le)
next
  case Clear
  with assms show ?thesis by auto
qed

lemma trace_len_le:
  "len v \<le> capacity v \<Longrightarrow> \<forall>w \<in> set (trace ops v). len w \<le> capacity w"
proof (induction ops arbitrary: v)
  case Nil
  then show ?case by simp
next
  case (Cons x xs)
  show ?case
  proof (cases "apply_operation x v")
    case (Returns v')
    with Cons.prems have "len v' \<le> capacity v'"
      by (intro apply_operation_len_le [of x v v']) simp_all
    then have "\<forall>w \<in> set (trace xs v'). len w \<le> capacity w"
      by (rule Cons.IH)
    with Returns Cons.prems show ?thesis by simp
  qed (use Cons.prems in simp_all)
qed

lemma vec_init_Some:
  assumes "vec_init got_vec a init_capacity sizeof_type = Some v"
  shows "len v = 0" and "capacity v = init_capacity" and "elem_size v = sizeof_type"
    and "vec_ok v"
  using assms
  by (auto simp: vec_init_def calloc_def vec_ok_def split: if_splits alloc.splits)

text \<open>
  Claim C4. Start from any vector \<open>vec_init\<close> returns and make any calls of \<open>vec_grow\<close>,
  \<open>vec_resize\<close>, \<open>vec_push\<close>, \<open>vec_pop\<close>, \<open>vec_remove\<close>, \<open>vec_swap_remove\<close> and \<open>vec_clear\<close>, with
  any arguments and any replies of the allocator. In the vector \<open>vec_init\<close> returned and in
  the vector after every call that returned, the length is at most the capacity.
\<close>

theorem len_le_capacity_invariant:
  assumes "vec_init got_vec a init_capacity sizeof_type = Some v0"
  shows "\<forall>v \<in> set (trace ops v0). len v \<le> capacity v"
  using vec_init_Some(1) [OF assms] by (intro trace_len_le) simp

theorem len_le_capacity_invariant_witness:
  "vec_init True (Grant 16 (\<lambda>_. 0)) 2 1 =
     Some \<lparr>inner = \<lparr>base = 16, bytes = [0, 0], live = True\<rparr>,
           capacity = 2, len = 0, elem_size = 1\<rparr> \<and>
   trace [Push Refuse (Object [7]), Push Refuse (Object [8]),
          Push (Grant 32 (\<lambda>_. 0)) (Object [9]), Remove 0, Pop (Grant 48 (\<lambda>_. 0)), Clear]
     \<lparr>inner = \<lparr>base = 16, bytes = [0, 0], live = True\<rparr>,
      capacity = 2, len = 0, elem_size = 1\<rparr> =
     [\<lparr>inner = \<lparr>base = 16, bytes = [0, 0], live = True\<rparr>,
       capacity = 2, len = 0, elem_size = 1\<rparr>,
      \<lparr>inner = \<lparr>base = 16, bytes = [7, 0], live = True\<rparr>,
       capacity = 2, len = 1, elem_size = 1\<rparr>,
      \<lparr>inner = \<lparr>base = 16, bytes = [7, 8], live = True\<rparr>,
       capacity = 2, len = 2, elem_size = 1\<rparr>,
      \<lparr>inner = \<lparr>base = 32, bytes = [7, 8, 9], live = True\<rparr>,
       capacity = 3, len = 3, elem_size = 1\<rparr>,
      \<lparr>inner = \<lparr>base = 32, bytes = [8, 9, 9], live = True\<rparr>,
       capacity = 3, len = 2, elem_size = 1\<rparr>,
      \<lparr>inner = \<lparr>base = 32, bytes = [8, 9, 9], live = True\<rparr>,
       capacity = 3, len = 1, elem_size = 1\<rparr>,
      \<lparr>inner = \<lparr>base = 32, bytes = [8, 9, 9], live = True\<rparr>,
       capacity = 3, len = 0, elem_size = 1\<rparr>] \<and>
   list_all (\<lambda>v. len v \<le> capacity v)
     (trace [Push Refuse (Object [7]), Push Refuse (Object [8]),
          Push (Grant 32 (\<lambda>_. 0)) (Object [9]), Remove 0, Pop (Grant 48 (\<lambda>_. 0)), Clear]
       \<lparr>inner = \<lparr>base = 16, bytes = [0, 0], live = True\<rparr>,
        capacity = 2, len = 0, elem_size = 1\<rparr>)"
proof -
  let ?v0 = "\<lparr>inner = \<lparr>base = 16, bytes = [0, 0], live = True\<rparr>,
              capacity = 2, len = 0, elem_size = 1\<rparr>"
  let ?ops = "[Push Refuse (Object [7]), Push Refuse (Object [8]),
          Push (Grant 32 (\<lambda>_. 0)) (Object [9]), Remove 0, Pop (Grant 48 (\<lambda>_. 0)), Clear]"
  have init: "vec_init True (Grant 16 (\<lambda>_. 0)) 2 1 = Some ?v0"
  proof -
    have "replicate 2 (0 :: byte) = [0, 0]"
      by (simp add: numeral_2_eq_2)
    then show ?thesis
      by (simp add: vec_init_def calloc_def size_max_def)
  qed
  have inv: "list_all (\<lambda>v. len v \<le> capacity v) (trace ?ops ?v0)"
    using len_le_capacity_invariant [OF init, of ?ops] by (simp only: list_all_iff)
  have tr: "trace ?ops ?v0 =
     [\<lparr>inner = \<lparr>base = 16, bytes = [0, 0], live = True\<rparr>,
       capacity = 2, len = 0, elem_size = 1\<rparr>,
      \<lparr>inner = \<lparr>base = 16, bytes = [7, 0], live = True\<rparr>,
       capacity = 2, len = 1, elem_size = 1\<rparr>,
      \<lparr>inner = \<lparr>base = 16, bytes = [7, 8], live = True\<rparr>,
       capacity = 2, len = 2, elem_size = 1\<rparr>,
      \<lparr>inner = \<lparr>base = 32, bytes = [7, 8, 9], live = True\<rparr>,
       capacity = 3, len = 3, elem_size = 1\<rparr>,
      \<lparr>inner = \<lparr>base = 32, bytes = [8, 9, 9], live = True\<rparr>,
       capacity = 3, len = 2, elem_size = 1\<rparr>,
      \<lparr>inner = \<lparr>base = 32, bytes = [8, 9, 9], live = True\<rparr>,
       capacity = 3, len = 1, elem_size = 1\<rparr>,
      \<lparr>inner = \<lparr>base = 32, bytes = [8, 9, 9], live = True\<rparr>,
       capacity = 3, len = 0, elem_size = 1\<rparr>]"
    by (simp add: reallocarray_def malloc_def size_max_def memmove_def memcpy_def
        VEC_ADDR_OF_def vec_remove_def upt_rec word_le_nat_alt word_less_nat_alt)
  from init tr inv show ?thesis
    by (intro conjI)
qed

section \<open>Removing elements\<close>

lemma store_slot_from:
  assumes m: "memmove old (l * es) src soff es = Some m"
  shows "length m = length old"
    and "take es (drop (l * es) m) = take es (drop soff src)"
    and "take (l * es) m = take (l * es) old"
    and "drop (Suc l * es) m = drop (Suc l * es) old"
  using m by (auto simp: memmove_def min_def add.commute split: if_splits)

lemma slot_suffix:
  assumes "drop k xs = drop k ys" and "k \<le> j * es"
  shows "take es (drop (j * es) xs) = take es (drop (j * es) ys)"
proof -
  have "drop (j * es) xs = drop (j * es - k) (drop k xs)"
    using assms(2) by simp
  also have "\<dots> = drop (j * es - k) (drop k ys)"
    by (simp only: assms(1))
  also have "\<dots> = drop (j * es) ys"
    using assms(2) by simp
  finally show ?thesis by simp
qed

lemma moved_block_length:
  assumes "a \<le> c" and "c + b \<le> length old"
  shows "length (take a old @ take b (drop c old) @ drop (a + b) old) = length old"
proof -
  have "min (length old) a = a" "min (length old - c) b = b"
    using assms by simp_all
  then show ?thesis using assms by simp
qed

lemma slot_in_middle:
  assumes "length A = a" and "k + es \<le> n" and "length B = n"
  shows "take es (drop (a + k) (A @ B @ C)) = take es (drop k B)"
  using assms by simp

lemma slot_of_take:
  assumes "k + es \<le> n"
  shows "take es (drop k (take n xs)) = take es (drop k xs)"
  using assms by (simp add: drop_take min_def)

lemma shifted_slots:
  fixes old :: "'a list"
  assumes I: "I < L" and fit: "L * es \<le> length old"
    and m: "m = take (I * es) old @ take ((L - 1 - I) * es) (drop (Suc I * es) old) @
                drop (I * es + (L - 1 - I) * es) old"
  shows "length m = length old"
    and "j < I \<Longrightarrow> take es (drop (j * es) m) = take es (drop (j * es) old)"
    and "I \<le> j \<Longrightarrow> j < L - 1 \<Longrightarrow>
           take es (drop (j * es) m) = take es (drop (Suc j * es) old)"
proof -
  define a where "a = I * es"
  define b where "b = (L - 1 - I) * es"
  define c where "c = Suc I * es"
  have ac: "a \<le> c" by (simp add: a_def c_def)
  have "Suc I + (L - 1 - I) = L" using I by simp
  then have "(Suc I + (L - 1 - I)) * es = L * es" by (rule arg_cong)
  then have sum: "c + b = L * es"
    unfolding b_def c_def by (simp only: add_mult_distrib)
  have cb: "c + b \<le> length old" using sum fit by simp
  have m': "m = take a old @ take b (drop c old) @ drop (a + b) old"
    unfolding m a_def b_def c_def ..
  have lenA: "length (take a old) = a"
    using ac cb by simp
  have lenB: "length (take b (drop c old)) = b"
    using cb by simp
  show "length m = length old"
    unfolding m' using ac cb by (rule moved_block_length)
  show "take es (drop (j * es) m) = take es (drop (j * es) old)" if "j < I"
  proof -
    have "Suc j \<le> I" using that by simp
    then have le: "Suc j * es \<le> a"
      unfolding a_def by (rule mult_le_mono1)
    have "take a m = take a old"
      unfolding m' using lenA by simp
    then show ?thesis using le by (rule slot_prefix)
  qed
  show "take es (drop (j * es) m) = take es (drop (Suc j * es) old)"
    if Ij: "I \<le> j" and jL: "j < L - 1"
  proof -
    from Ij obtain d where d: "j = I + d" using le_Suc_ex by blast
    have dlt: "Suc d \<le> L - 1 - I" using jL d by simp
    have "Suc d * es \<le> b"
      unfolding b_def using dlt by (rule mult_le_mono1)
    then have room: "d * es + es \<le> b"
      by (simp add: add.commute)
    have j1: "j * es = a + d * es"
      unfolding d a_def by (rule add_mult_distrib)
    have j2: "Suc j * es = d * es + c"
      unfolding d c_def by (simp add: add_mult_distrib)
    have "take es (drop (j * es) m) = take es (drop (d * es) (take b (drop c old)))"
      unfolding m' j1 using lenA room lenB by (rule slot_in_middle)
    also have "\<dots> = take es (drop (d * es) (drop c old))"
      using room by (rule slot_of_take)
    also have "\<dots> = take es (drop (Suc j * es) old)"
      by (simp only: drop_drop j2)
    finally show ?thesis .
  qed
qed

lemma index_facts:
  assumes ok: "vec_ok v" and i: "i < len v"
  shows "unat i < unat (len v)"
    and "unat (len v - 1) = unat (len v) - 1"
    and "unat (len v) * unat (elem_size v) \<le> length (bytes (inner v))"
    and "VEC_ADDR_OF v i = unat i * unat (elem_size v)"
    and "VEC_ADDR_OF v (i + 1) = Suc (unat i) * unat (elem_size v)"
    and "VEC_ADDR_OF v (len v - 1) = (unat (len v) - 1) * unat (elem_size v)"
    and "i = len v - 1 \<longleftrightarrow> unat i = unat (len v) - 1"
proof -
  have lc: "len v \<le> capacity v"
    using ok by (simp add: vec_ok_def)
  show lt: "unat i < unat (len v)"
    using i by (simp add: word_less_nat_alt)
  have ne: "len v \<noteq> 0"
    using i by auto
  show pred: "unat (len v - 1) = unat (len v) - 1"
    using ne by (rule unat_pred_pos)
  have "unat (len v) \<le> unat (capacity v)"
    using lc by (simp add: word_le_nat_alt)
  then have "unat (len v) * unat (elem_size v) \<le> unat (capacity v) * unat (elem_size v)"
    by (rule mult_le_mono1)
  then show "unat (len v) * unat (elem_size v) \<le> length (bytes (inner v))"
    using ok by (simp add: vec_ok_def)
  have "i \<le> capacity v"
    using i lc by simp
  then show "VEC_ADDR_OF v i = unat i * unat (elem_size v)"
    by (rule addr_of_ok [OF ok])
  have suc: "unat (i + 1) = Suc (unat i)"
    using unat_succ_less [OF i] by simp
  have "i + 1 \<le> len v"
    using i by (rule succ_le_of_less)
  then have "i + 1 \<le> capacity v"
    using lc by simp
  then show "VEC_ADDR_OF v (i + 1) = Suc (unat i) * unat (elem_size v)"
    using addr_of_ok [OF ok, of "i + 1"] suc by simp
  have "len v - 1 \<le> len v"
    using ne by (rule pred_le)
  then have "len v - 1 \<le> capacity v"
    using lc by simp
  then show "VEC_ADDR_OF v (len v - 1) = (unat (len v) - 1) * unat (elem_size v)"
    using addr_of_ok [OF ok, of "len v - 1"] pred by simp
  show "i = len v - 1 \<longleftrightarrow> unat i = unat (len v) - 1"
    using pred by (simp add: word_unat_eq_iff)
qed

lemma nbytes_ok:
  assumes ok: "vec_ok v" and i: "i < len v"
  shows "unat (((len v - 1) - i) * elem_size v) =
           (unat (len v) - 1 - unat i) * unat (elem_size v)"
proof -
  note f = index_facts [OF ok i]
  have le: "i \<le> len v - 1"
    using f(1,2) by (simp add: word_le_nat_alt)
  have sub: "unat ((len v - 1) - i) = unat (len v) - 1 - unat i"
    using le f(2) by (simp add: unat_sub)
  have "(unat (len v) - 1 - unat i) * unat (elem_size v) \<le>
          unat (len v) * unat (elem_size v)"
    by (intro mult_le_mono1) simp
  also have "\<dots> \<le> length (bytes (inner v))" by (rule f(3))
  also have "\<dots> < size_max" using ok by (simp add: vec_ok_def)
  finally have "unat ((len v - 1) - i) * unat (elem_size v) < size_max"
    by (simp only: sub)
  then show ?thesis
    by (simp add: unat_mult_small sub)
qed

lemma take_take_drop_id:
  "take a xs @ take b (drop a xs) @ drop (a + b) xs = xs"
proof -
  have "take a xs @ take b (drop a xs) = take (a + b) xs"
    by (simp add: take_add)
  then have "take a xs @ take b (drop a xs) @ drop (a + b) xs =
        take (a + b) xs @ drop (a + b) xs"
    by (simp only: append_assoc [symmetric])
  then show ?thesis by (simp only: append_take_drop_id)
qed

lemma vec_remove_ok:
  assumes ok: "vec_ok v" and i: "i < len v"
  shows "vec_remove (Some v) i =
           Returns ((), v\<lparr>inner := (inner v)\<lparr>bytes :=
             take (unat i * unat (elem_size v)) (bytes (inner v)) @
             take ((unat (len v) - 1 - unat i) * unat (elem_size v))
               (drop (Suc (unat i) * unat (elem_size v)) (bytes (inner v))) @
             drop (unat i * unat (elem_size v) +
                   (unat (len v) - 1 - unat i) * unat (elem_size v)) (bytes (inner v))\<rparr>,
             len := len v - 1\<rparr>)"
proof -
  let ?I = "unat i" and ?L = "unat (len v)" and ?es = "unat (elem_size v)"
  let ?old = "bytes (inner v)"
  let ?m = "take (?I * ?es) ?old @ take ((?L - 1 - ?I) * ?es) (drop (Suc ?I * ?es) ?old) @
            drop (?I * ?es + (?L - 1 - ?I) * ?es) ?old"
  note f = index_facts [OF ok i]
  show ?thesis
  proof (cases "i = len v - 1")
    case True
    then have "?L - 1 - ?I = 0" using f(7) by simp
    then have "?m = ?old" by simp
    then show ?thesis
      using True i by (simp add: vec_remove_def)
  next
    case False
    have "Suc ?I + (?L - 1 - ?I) = ?L" using f(1) by simp
    then have "(Suc ?I + (?L - 1 - ?I)) * ?es = ?L * ?es" by simp
    then have sum: "Suc ?I * ?es + (?L - 1 - ?I) * ?es = ?L * ?es"
      by (simp only: add_mult_distrib)
    have src: "Suc ?I * ?es + (?L - 1 - ?I) * ?es \<le> length ?old"
      using sum f(3) by simp
    have "?I * ?es \<le> Suc ?I * ?es" by simp
    then have dst: "?I * ?es + (?L - 1 - ?I) * ?es \<le> length ?old"
      using src by linarith
    have "memmove ?old (?I * ?es) ?old (Suc ?I * ?es) ((?L - 1 - ?I) * ?es) = Some ?m"
      using src dst by (simp add: memmove_def)
    moreover have "live (inner v)"
      using ok by (simp add: vec_ok_def)
    ultimately show ?thesis
      using False i f(4,5) nbytes_ok [OF ok i]
      by (simp add: vec_remove_def Let_def)
  qed
qed

lemma vec_swap_remove_ok:
  assumes ok: "vec_ok v" and i: "i < len v"
  shows "vec_swap_remove (Some v) i =
           Returns ((), v\<lparr>inner := (inner v)\<lparr>bytes :=
             take (unat i * unat (elem_size v)) (bytes (inner v)) @
             take (unat (elem_size v))
               (drop ((unat (len v) - 1) * unat (elem_size v)) (bytes (inner v))) @
             drop (unat i * unat (elem_size v) + unat (elem_size v)) (bytes (inner v))\<rparr>,
             len := len v - 1\<rparr>)"
    and "memmove (bytes (inner v)) (unat i * unat (elem_size v)) (bytes (inner v))
           ((unat (len v) - 1) * unat (elem_size v)) (unat (elem_size v)) =
         Some (take (unat i * unat (elem_size v)) (bytes (inner v)) @
             take (unat (elem_size v))
               (drop ((unat (len v) - 1) * unat (elem_size v)) (bytes (inner v))) @
             drop (unat i * unat (elem_size v) + unat (elem_size v)) (bytes (inner v)))"
proof -
  let ?I = "unat i" and ?L = "unat (len v)" and ?es = "unat (elem_size v)"
  let ?old = "bytes (inner v)"
  let ?m = "take (?I * ?es) ?old @ take ?es (drop ((?L - 1) * ?es) ?old) @
            drop (?I * ?es + ?es) ?old"
  note f = index_facts [OF ok i]
  have "Suc (?L - 1) = ?L" using f(1) by simp
  then have "Suc (?L - 1) * ?es = ?L * ?es" by (simp only:)
  then have src: "(?L - 1) * ?es + ?es \<le> length ?old"
    using f(3) by (simp add: add.commute)
  have "Suc ?I \<le> ?L" using f(1) by simp
  then have "Suc ?I * ?es \<le> ?L * ?es" by (rule mult_le_mono1)
  then have dst: "?I * ?es + ?es \<le> length ?old"
    using f(3) by (simp add: add.commute)
  show mm: "memmove ?old (?I * ?es) ?old ((?L - 1) * ?es) ?es = Some ?m"
    using src dst by (simp add: memmove_def)
  show "vec_swap_remove (Some v) i =
          Returns ((), v\<lparr>inner := (inner v)\<lparr>bytes := ?m\<rparr>, len := len v - 1\<rparr>)"
  proof (cases "2 \<le> len v")
    case True
    moreover have "live (inner v)"
      using ok by (simp add: vec_ok_def)
    ultimately show ?thesis
      using i f(4,6) mm by (simp add: vec_swap_remove_def)
  next
    case False
    then have "?L < 2" by (simp add: word_le_nat_alt)
    with f(1) have "?I = 0" "?L - 1 = 0" by simp_all
    then have "?m = ?old"
      using take_take_drop_id [of 0 ?old ?es] by simp
    then show ?thesis
      using False i by (simp add: vec_swap_remove_def)
  qed
qed

lemma elements_without:
  assumes I: "I < L"
    and lo: "\<And>j. j < I \<Longrightarrow> f' j = f j"
    and hi: "\<And>j. I \<le> j \<Longrightarrow> j < L - 1 \<Longrightarrow> f' j = f (Suc j)"
  shows "map f' [0..<L - 1] = take I (map f [0..<L]) @ drop (Suc I) (map f [0..<L])"
proof -
  have split: "[0..<L - 1] = [0..<I] @ [I..<L - 1]"
  proof -
    have "L - 1 = I + (L - 1 - I)" using I by simp
    then have "[0..<L - 1] = [0..<I + (L - 1 - I)]" by simp
    also have "\<dots> = [0..<I] @ [I..<I + (L - 1 - I)]"
      by (rule upt_add_eq_append) simp
    finally show ?thesis using I by simp
  qed
  have a: "map f' [0..<I] = take I (map f [0..<L])"
    using I lo by (simp add: take_map)
  have "map f' [I..<L - 1] = map (f \<circ> Suc) [I..<L - 1]"
    using hi by simp
  also have "\<dots> = map f (map Suc [I..<L - 1])"
    by simp
  also have "map Suc [I..<L - 1] = [Suc I..<L]"
    using I by (simp add: map_Suc_upt)
  also have "map f [Suc I..<L] = drop (Suc I) (map f [0..<L])"
    by (simp add: drop_map)
  finally show ?thesis
    using a by (simp only: split map_append)
qed

text \<open>
  Claim C6. Take a well-formed vector and an index \<open>i\<close> below its length \<open>L\<close>.
  \<open>vec_remove\<close> returns; the block afterwards is the old one with the
  \<open>(L - 1 - i) * elem_size\<close> bytes that follow slot \<open>i\<close> moved down to slot \<open>i\<close>, so the elements
  are the old ones without the one at \<open>i\<close>, in the same order, and the length is one less.
  \<open>vec_swap_remove\<close> returns; slot \<open>i\<close> then holds what the last slot in use held, every
  other slot below \<open>L\<close> is unchanged, and the length is one less. For \<open>i = L - 1\<close> both do
  nothing but decrement the length.
\<close>

theorem removal_spec:
  assumes ok: "vec_ok v" and i: "i < len v"
  shows
    "(\<exists>v'. vec_remove (Some v) i = Returns ((), v') \<and>
         len v' = len v - 1 \<and> unat (len v') = unat (len v) - 1 \<and>
         bytes (inner v') =
           take (unat i * unat (elem_size v)) (bytes (inner v)) @
           take ((unat (len v) - 1 - unat i) * unat (elem_size v))
             (drop (Suc (unat i) * unat (elem_size v)) (bytes (inner v))) @
           drop (unat i * unat (elem_size v) +
                 (unat (len v) - 1 - unat i) * unat (elem_size v)) (bytes (inner v)) \<and>
         elements v' = take (unat i) (elements v) @ drop (Suc (unat i)) (elements v) \<and>
         (i = len v - 1 \<longrightarrow> v' = v\<lparr>len := len v - 1\<rparr>) \<and> vec_ok v') \<and>
     (\<exists>v'. vec_swap_remove (Some v) i = Returns ((), v') \<and>
         len v' = len v - 1 \<and> unat (len v') = unat (len v) - 1 \<and>
         slot v' (unat i) = slot v (unat (len v) - 1) \<and>
         (\<forall>j<unat (len v). j \<noteq> unat i \<longrightarrow> slot v' j = slot v j) \<and>
         (i = len v - 1 \<longrightarrow> v' = v\<lparr>len := len v - 1\<rparr>) \<and> vec_ok v')"
proof (rule conjI)
  let ?I = "unat i" and ?L = "unat (len v)" and ?es = "unat (elem_size v)"
  let ?old = "bytes (inner v)"
  note f = index_facts [OF ok i]
  have lc: "len v - 1 \<le> capacity v"
  proof -
    have "unat (len v - 1) \<le> unat (len v)" using f(2) by simp
    moreover have "unat (len v) \<le> unat (capacity v)"
      using ok by (simp add: vec_ok_def word_le_nat_alt)
    ultimately show ?thesis by (simp add: word_le_nat_alt)
  qed
  {
    let ?m = "take (?I * ?es) ?old @ take ((?L - 1 - ?I) * ?es) (drop (Suc ?I * ?es) ?old) @
              drop (?I * ?es + (?L - 1 - ?I) * ?es) ?old"
    let ?v' = "v\<lparr>inner := (inner v)\<lparr>bytes := ?m\<rparr>, len := len v - 1\<rparr>"
    note s = shifted_slots [OF f(1) f(3) refl]
    have r: "vec_remove (Some v) i = Returns ((), ?v')"
      using ok i by (rule vec_remove_ok)
    have lo: "slot ?v' j = slot v j" if "j < ?I" for j
      using s(2) [OF that] by (simp add: slot_def)
    have hi: "slot ?v' j = slot v (Suc j)" if "?I \<le> j" "j < ?L - 1" for j
      using s(3) [OF that] by (simp add: slot_def)
    have lenv': "unat (len ?v') = ?L - 1"
      using f(2) by simp
    have "map (slot ?v') [0..<?L - 1] =
            take ?I (map (slot v) [0..<?L]) @ drop (Suc ?I) (map (slot v) [0..<?L])"
      using f(1) lo hi by (rule elements_without)
    then have el: "elements ?v' = take ?I (elements v) @ drop (Suc ?I) (elements v)"
      unfolding elements_def lenv' .
    have last: "?v' = v\<lparr>len := len v - 1\<rparr>" if "i = len v - 1"
    proof -
      have "?L - 1 - ?I = 0" using that f(7) by simp
      then have "?m = ?old" by simp
      then show ?thesis by simp
    qed
    have ok': "vec_ok ?v'"
      using ok lc s(1) by (simp add: vec_ok_def)
    show "\<exists>v'. vec_remove (Some v) i = Returns ((), v') \<and>
         len v' = len v - 1 \<and> unat (len v') = unat (len v) - 1 \<and>
         bytes (inner v') = ?m \<and>
         elements v' = take ?I (elements v) @ drop (Suc ?I) (elements v) \<and>
         (i = len v - 1 \<longrightarrow> v' = v\<lparr>len := len v - 1\<rparr>) \<and> vec_ok v'"
      using r f(2) el last ok' by (intro exI [of _ ?v']) simp
  }
  {
    let ?m = "take (?I * ?es) ?old @ take ?es (drop ((?L - 1) * ?es) ?old) @
              drop (?I * ?es + ?es) ?old"
    let ?v' = "v\<lparr>inner := (inner v)\<lparr>bytes := ?m\<rparr>, len := len v - 1\<rparr>"
    note mm = vec_swap_remove_ok(2) [OF ok i]
    note s = store_slot_from [OF mm]
    have r: "vec_swap_remove (Some v) i = Returns ((), ?v')"
      using ok i by (rule vec_swap_remove_ok(1))
    have at: "slot ?v' ?I = slot v (?L - 1)"
      using s(2) by (simp add: slot_def)
    have other: "slot ?v' j = slot v j" if "j \<noteq> ?I" for j
    proof (cases "j < ?I")
      case True
      then have "Suc j * ?es \<le> ?I * ?es"
        by (intro mult_le_mono1) simp
      with s(3) have "take ?es (drop (j * ?es) ?m) = take ?es (drop (j * ?es) ?old)"
        by (rule slot_prefix)
      then show ?thesis by (simp add: slot_def)
    next
      case False
      with that have "Suc ?I \<le> j" by simp
      then have "Suc ?I * ?es \<le> j * ?es"
        by (rule mult_le_mono1)
      with s(4) have "take ?es (drop (j * ?es) ?m) = take ?es (drop (j * ?es) ?old)"
        by (rule slot_suffix)
      then show ?thesis by (simp add: slot_def)
    qed
    have last: "?v' = v\<lparr>len := len v - 1\<rparr>" if "i = len v - 1"
    proof -
      have "?L - 1 = ?I" using that f(7) by simp
      then have "?m = ?old"
        using take_take_drop_id [of "?I * ?es" ?old ?es] by simp
      then show ?thesis by simp
    qed
    have ok': "vec_ok ?v'"
      using ok lc s(1) by (simp add: vec_ok_def)
    show "\<exists>v'. vec_swap_remove (Some v) i = Returns ((), v') \<and>
         len v' = len v - 1 \<and> unat (len v') = unat (len v) - 1 \<and>
         slot v' ?I = slot v (?L - 1) \<and>
         (\<forall>j<?L. j \<noteq> ?I \<longrightarrow> slot v' j = slot v j) \<and>
         (i = len v - 1 \<longrightarrow> v' = v\<lparr>len := len v - 1\<rparr>) \<and> vec_ok v'"
      using r f(2) at other last ok' by (intro exI [of _ ?v']) simp
  }
qed

theorem removal_spec_witness:
  "vec_remove
     (Some \<lparr>inner = \<lparr>base = 16, bytes = [1, 2, 3, 4, 5, 6, 0, 0], live = True\<rparr>,
            capacity = 4, len = 3, elem_size = 2\<rparr>) 0 =
     Returns ((), \<lparr>inner = \<lparr>base = 16, bytes = [3, 4, 5, 6, 5, 6, 0, 0], live = True\<rparr>,
                   capacity = 4, len = 2, elem_size = 2\<rparr>) \<and>
   elements \<lparr>inner = \<lparr>base = 16, bytes = [3, 4, 5, 6, 5, 6, 0, 0], live = True\<rparr>,
              capacity = 4, len = 2, elem_size = 2\<rparr> = [[3, 4], [5, 6]] \<and>
   vec_swap_remove
     (Some \<lparr>inner = \<lparr>base = 16, bytes = [1, 2, 3, 4, 5, 6, 0, 0], live = True\<rparr>,
            capacity = 4, len = 3, elem_size = 2\<rparr>) 0 =
     Returns ((), \<lparr>inner = \<lparr>base = 16, bytes = [5, 6, 3, 4, 5, 6, 0, 0], live = True\<rparr>,
                   capacity = 4, len = 2, elem_size = 2\<rparr>) \<and>
   slot \<lparr>inner = \<lparr>base = 16, bytes = [5, 6, 3, 4, 5, 6, 0, 0], live = True\<rparr>,
          capacity = 4, len = 2, elem_size = 2\<rparr> 0 = [5, 6]"
proof -
  let ?v = "\<lparr>inner = \<lparr>base = 16, bytes = [1, 2, 3, 4, 5, 6, 0, 0], live = True\<rparr>,
             capacity = 4, len = 3, elem_size = 2\<rparr>"
  have ok: "vec_ok ?v"
    by (simp add: vec_ok_def size_max_def)
  have i: "0 < len ?v"
    by simp
  have r: "vec_remove (Some ?v) 0 =
     Returns ((), \<lparr>inner = \<lparr>base = 16, bytes = [3, 4, 5, 6, 5, 6, 0, 0], live = True\<rparr>,
                   capacity = 4, len = 2, elem_size = 2\<rparr>)"
    by (simp add: vec_remove_def memmove_def VEC_ADDR_OF_def)
  have s: "vec_swap_remove (Some ?v) 0 =
     Returns ((), \<lparr>inner = \<lparr>base = 16, bytes = [5, 6, 3, 4, 5, 6, 0, 0], live = True\<rparr>,
                   capacity = 4, len = 2, elem_size = 2\<rparr>)"
    by (simp add: vec_swap_remove_def memmove_def VEC_ADDR_OF_def)
  have e: "elements ?v = [[1, 2], [3, 4], [5, 6]]"
    by (simp add: elements_def slot_def upt_rec)
  have l: "slot ?v 2 = [5, 6]"
    by (simp add: slot_def)
  show ?thesis
    using removal_spec [OF ok i] r s e l by simp
qed

section \<open>What shrinking leaves alone\<close>

lemma memmove_prefix:
  "memmove dst doff src soff n = Some m \<Longrightarrow> take doff m = take doff dst"
  by (auto simp: memmove_def split: if_splits)

lemma vec_pop_frame:
  assumes "vec_pop a (Some v) = Returns (r, v')"
  shows "v' = v\<lparr>len := len v'\<rparr>"
  using assms by (auto split: if_splits option.splits)

lemma vec_remove_frame:
  assumes "vec_remove (Some v) i = Returns (r, v')"
  shows "v' = v\<lparr>inner := (inner v)\<lparr>bytes := bytes (inner v')\<rparr>, len := len v'\<rparr>"
    and "length (bytes (inner v')) = length (bytes (inner v))"
    and "take (VEC_ADDR_OF v i) (bytes (inner v')) = take (VEC_ADDR_OF v i) (bytes (inner v))"
  using assms
  by (auto simp: vec_remove_def Let_def memmove_length memmove_prefix
      split: if_splits option.splits)

lemma vec_swap_remove_frame:
  assumes "vec_swap_remove (Some v) i = Returns (r, v')"
  shows "v' = v\<lparr>inner := (inner v)\<lparr>bytes := bytes (inner v')\<rparr>, len := len v'\<rparr>"
    and "length (bytes (inner v')) = length (bytes (inner v))"
    and "take (VEC_ADDR_OF v i) (bytes (inner v')) = take (VEC_ADDR_OF v i) (bytes (inner v))"
  using assms
  by (auto simp: vec_swap_remove_def memmove_length memmove_prefix
      split: if_splits option.splits)

text \<open>
  Claim C10. Whenever \<open>vec_pop\<close>, \<open>vec_clear\<close>, \<open>vec_remove\<close> or \<open>vec_swap_remove\<close> returns, the
  capacity, the element size, the address of the block behind \<^verbatim>\<open>inner\<close> and its size are
  what they were. \<open>vec_pop\<close> and \<open>vec_clear\<close> change nothing but the length; \<open>vec_remove\<close> and
  \<open>vec_swap_remove\<close> change nothing but the length and bytes of the block, and none of the
  bytes before the slot of the index they are given.
\<close>

theorem shrinking_frame:
  "(\<forall>r v'. vec_pop a (Some v) = Returns (r, v') \<longrightarrow>
      v' = v\<lparr>len := len v'\<rparr> \<and> capacity v' = capacity v \<and> elem_size v' = elem_size v \<and>
      inner v' = inner v) \<and>
   (\<forall>r v'. vec_clear (Some v) = Returns (r, v') \<longrightarrow>
      v' = v\<lparr>len := len v'\<rparr> \<and> capacity v' = capacity v \<and> elem_size v' = elem_size v \<and>
      inner v' = inner v) \<and>
   (\<forall>r v'. vec_remove (Some v) i = Returns (r, v') \<or>
            vec_swap_remove (Some v) i = Returns (r, v') \<longrightarrow>
      v' = v\<lparr>inner := (inner v)\<lparr>bytes := bytes (inner v')\<rparr>, len := len v'\<rparr> \<and>
      capacity v' = capacity v \<and> elem_size v' = elem_size v \<and>
      base (inner v') = base (inner v) \<and>
      length (bytes (inner v')) = length (bytes (inner v)) \<and>
      take (VEC_ADDR_OF v i) (bytes (inner v')) = take (VEC_ADDR_OF v i) (bytes (inner v)))"
proof (intro conjI allI impI)
  fix r v' assume "vec_pop a (Some v) = Returns (r, v')"
  then have e: "v' = v\<lparr>len := len v'\<rparr>" by (rule vec_pop_frame)
  show "v' = v\<lparr>len := len v'\<rparr>" by (rule e)
  show "capacity v' = capacity v" "elem_size v' = elem_size v" "inner v' = inner v"
    by (subst e, simp)+
next
  fix r v' assume "vec_clear (Some v) = Returns (r, v')"
  then show "v' = v\<lparr>len := len v'\<rparr>" "capacity v' = capacity v"
    "elem_size v' = elem_size v" "inner v' = inner v"
    by auto
next
  fix r v'
  assume "vec_remove (Some v) i = Returns (r, v') \<or>
          vec_swap_remove (Some v) i = Returns (r, v')"
  then have e: "v' = v\<lparr>inner := (inner v)\<lparr>bytes := bytes (inner v')\<rparr>, len := len v'\<rparr>"
    and l: "length (bytes (inner v')) = length (bytes (inner v))"
    and t: "take (VEC_ADDR_OF v i) (bytes (inner v')) = take (VEC_ADDR_OF v i) (bytes (inner v))"
    using vec_remove_frame [of v i r v'] vec_swap_remove_frame [of v i r v'] by blast+
  show "v' = v\<lparr>inner := (inner v)\<lparr>bytes := bytes (inner v')\<rparr>, len := len v'\<rparr>"
    by (rule e)
  show "capacity v' = capacity v" "elem_size v' = elem_size v"
    "base (inner v') = base (inner v)"
    by (subst e, simp)+
  show "length (bytes (inner v')) = length (bytes (inner v))" by (rule l)
  show "take (VEC_ADDR_OF v i) (bytes (inner v')) = take (VEC_ADDR_OF v i) (bytes (inner v))"
    by (rule t)
qed

theorem shrinking_frame_witness:
  "vec_remove
     (Some \<lparr>inner = \<lparr>base = 16, bytes = [1, 2, 3, 4, 5, 6, 0, 0], live = True\<rparr>,
            capacity = 4, len = 3, elem_size = 2\<rparr>) 1 =
     Returns ((), \<lparr>inner = \<lparr>base = 16, bytes = [1, 2, 5, 6, 5, 6, 0, 0], live = True\<rparr>,
                   capacity = 4, len = 2, elem_size = 2\<rparr>) \<and>
   take (VEC_ADDR_OF \<lparr>inner = \<lparr>base = 16, bytes = [1, 2, 3, 4, 5, 6, 0, 0], live = True\<rparr>,
            capacity = 4, len = 3, elem_size = 2\<rparr> 1) [1, 2, 5, 6, 5, 6, 0, 0 :: byte] = [1, 2] \<and>
   vec_pop (Grant 48 (\<lambda>_. 0))
     (Some \<lparr>inner = \<lparr>base = 16, bytes = [1, 2, 3, 4, 5, 6, 0, 0], live = True\<rparr>,
            capacity = 4, len = 3, elem_size = 2\<rparr>) =
     Returns (Some \<lparr>base = 48, bytes = [5, 6], live = True\<rparr>,
       \<lparr>inner = \<lparr>base = 16, bytes = [1, 2, 3, 4, 5, 6, 0, 0], live = True\<rparr>,
            capacity = 4, len = 2, elem_size = 2\<rparr>) \<and>
   vec_resize (Grant 32 (\<lambda>_. 0))
     (Some \<lparr>inner = \<lparr>base = 16, bytes = [1, 2, 3, 4, 5, 6, 0, 0], live = True\<rparr>,
            capacity = 4, len = 3, elem_size = 2\<rparr>) 3 =
     Returns (True, \<lparr>inner = \<lparr>base = 32, bytes = [1, 2, 3, 4, 5, 6], live = True\<rparr>,
            capacity = 3, len = 3, elem_size = 2\<rparr>)"
proof -
  let ?v = "\<lparr>inner = \<lparr>base = 16, bytes = [1, 2, 3, 4, 5, 6, 0, 0], live = True\<rparr>,
             capacity = 4, len = 3, elem_size = 2\<rparr>"
  have r: "vec_remove (Some ?v) 1 =
     Returns ((), \<lparr>inner = \<lparr>base = 16, bytes = [1, 2, 5, 6, 5, 6, 0, 0], live = True\<rparr>,
                   capacity = 4, len = 2, elem_size = 2\<rparr>)"
    by (simp add: vec_remove_def memmove_def VEC_ADDR_OF_def word_less_nat_alt)
  have p: "vec_pop (Grant 48 (\<lambda>_. 0)) (Some ?v) =
     Returns (Some \<lparr>base = 48, bytes = [5, 6], live = True\<rparr>,
       \<lparr>inner = \<lparr>base = 16, bytes = [1, 2, 3, 4, 5, 6, 0, 0], live = True\<rparr>,
            capacity = 4, len = 2, elem_size = 2\<rparr>)"
    by (simp add: malloc_def memcpy_def memmove_def VEC_ADDR_OF_def upt_rec)
  have z: "vec_resize (Grant 32 (\<lambda>_. 0)) (Some ?v) 3 =
     Returns (True, \<lparr>inner = \<lparr>base = 32, bytes = [1, 2, 3, 4, 5, 6], live = True\<rparr>,
            capacity = 3, len = 3, elem_size = 2\<rparr>)"
    by (simp add: reallocarray_def size_max_def)
  show ?thesis
    using shrinking_frame [of "Grant 48 (\<lambda>_. 0)" ?v 1] r p z
    by (simp add: VEC_ADDR_OF_def)
qed

section \<open>Strings\<close>

lemma terminate_at:
  assumes "L \<le> length old"
  shows "(take (L + 1) old @ map junk [length old..<L + 1])[L := z] = take L old @ [z]"
proof (cases "L = length old")
  case True
  then show ?thesis by (simp add: list_update_append)
next
  case False
  with assms have lt: "L < length old" by simp
  then have "take (L + 1) old = take L old @ [old ! L]"
    by (simp add: take_Suc_conv_app_nth)
  then show ?thesis
    using lt by (simp add: list_update_append)
qed

lemma string_facts:
  assumes ok: "vec_ok v" and es: "elem_size v = 1" and nowrap: "unat (len v) + 1 < size_max"
  shows "unat (len v) \<le> length (bytes (inner v))"
    and "unat (len v + 1) = unat (len v) + 1"
    and "len v + 1 - 1 = len v"
    and "length (bytes (inner v)) = unat (capacity v)"
proof -
  show c: "length (bytes (inner v)) = unat (capacity v)"
    using ok es by (simp add: vec_ok_def)
  show "unat (len v) \<le> length (bytes (inner v))"
    using ok c by (simp add: vec_ok_def word_le_nat_alt)
  show "unat (len v + 1) = unat (len v) + 1"
    using nowrap by (simp add: unat_word_ariths size_max_def)
  show "len v + 1 - 1 = len v" by simp
qed

lemma vec_to_str_ok:
  assumes ok: "vec_ok v" and es: "elem_size v = 1" and nowrap: "unat (len v) + 1 < size_max"
  shows "vec_resize (Grant q junk) (Some v) (len v + 1) =
           Returns (True,
             v\<lparr>inner := \<lparr>base = q,
                           bytes = take (unat (len v) + 1) (bytes (inner v)) @
                                   map junk [length (bytes (inner v))..<unat (len v) + 1],
                           live = True\<rparr>,
               capacity := len v + 1\<rparr>)"
    and "vec_to_str (Grant q junk) (Some (Some v)) =
           Returns (\<lparr>base = q, bytes = take (unat (len v)) (bytes (inner v)) @ [0],
                     live = True\<rparr>, None)"
proof -
  note f = string_facts [OF ok es nowrap]
  let ?L = "unat (len v)"
  let ?new = "take (?L + 1) (bytes (inner v)) @ map junk [length (bytes (inner v))..<?L + 1]"
  have lv: "live (inner v)"
    using ok by (simp add: vec_ok_def)
  have r: "reallocarray (Grant q junk) (inner v) (len v + 1) (elem_size v) =
             (Some \<lparr>base = q, bytes = ?new, live = True\<rparr>, (inner v)\<lparr>live := False\<rparr>)"
    using nowrap f(2) es by (simp add: reallocarray_def)
  have m: "min (len v) (len v + 1) = len v"
    using f(2) by (simp add: min_def word_le_nat_alt)
  show rs: "vec_resize (Grant q junk) (Some v) (len v + 1) =
           Returns (True, v\<lparr>inner := \<lparr>base = q, bytes = ?new, live = True\<rparr>, capacity := len v + 1\<rparr>)"
    using r m lv by (simp add: vec_resize_cases del: vec_resize.simps)
  have t: "?new[?L := 0] = take ?L (bytes (inner v)) @ [0]"
    using f(1) by (rule terminate_at)
  have "?L < length ?new"
    using f(1) by simp
  then have "poke ?new ?L 0 = Some (take ?L (bytes (inner v)) @ [0])"
    using t by (simp add: poke_def)
  then show "vec_to_str (Grant q junk) (Some (Some v)) =
           Returns (\<lparr>base = q, bytes = take ?L (bytes (inner v)) @ [0], live = True\<rparr>, None)"
    using rs f(3) by (simp add: Let_def del: vec_resize.simps)
qed

lemma vec_clone_str_ok:
  assumes ok: "vec_ok v" and es: "elem_size v = 1" and nowrap: "unat (len v) + 1 < size_max"
  shows "vec_clone_str (Grant q junk) (Some v) =
           Returns (Some \<lparr>base = q, bytes = take (unat (len v)) (bytes (inner v)) @ [0], live = True\<rparr>, v)"
proof -
  note f = string_facts [OF ok es nowrap]
  let ?L = "unat (len v)"
  let ?str = "map junk [0..<?L + 1]"
  have "memcpy ?str 0 (bytes (inner v)) 0 ?L = Some (take ?L (bytes (inner v)) @ drop ?L ?str)"
    using f(1) by (simp add: memcpy_def memmove_def)
  moreover have "drop ?L ?str = [junk ?L]"
    by (simp add: drop_map)
  ultimately have c: "memcpy ?str 0 (bytes (inner v)) 0 ?L =
      Some (take ?L (bytes (inner v)) @ [junk ?L])"
    by simp
  have p: "poke (take ?L (bytes (inner v)) @ [junk ?L]) ?L 0 =
      Some (take ?L (bytes (inner v)) @ [0])"
    using f(1) by (simp add: poke_def list_update_append)
  have lv: "live (inner v)"
    using ok by (simp add: vec_ok_def)
  show ?thesis
    using c p f(2) lv by (simp add: malloc_def)
qed

text \<open>
  Claim C8. Take a well-formed vector of bytes (\<open>elem_size = 1\<close>) whose length plus one
  fits \<^verbatim>\<open>size_t\<close>, and let the allocator grant what it is asked. \<open>vec_to_str\<close> resizes the
  vector to \<open>len + 1\<close> slots, which succeeds, writes a zero byte into the last of them and
  hands out that block, leaving the caller's handle null: the block holds the \<open>len\<close> bytes
  of the vector followed by one zero byte. \<open>vec_clone_str\<close> returns a block of the caller's
  own with the same content and leaves the vector as it was. For a vector that holds the
  three bytes \<open>'a'\<close>, \<open>'b'\<close>, \<open>'c'\<close> (97, 98, 99) both results are the four bytes
  \<open>'a'\<close>, \<open>'b'\<close>, \<open>'c'\<close>, \<open>0\<close>.
\<close>

theorem bytestring_spec:
  assumes ok: "vec_ok v" and es: "elem_size v = 1" and nowrap: "unat (len v) + 1 < size_max"
  shows
    "vec_resize (Grant q junk) (Some v) (len v + 1) =
       Returns (True,
         v\<lparr>inner := \<lparr>base = q,
                       bytes = take (unat (len v) + 1) (bytes (inner v)) @
                               map junk [length (bytes (inner v))..<unat (len v) + 1], live = True\<rparr>,
           capacity := len v + 1\<rparr>) \<and>
     vec_to_str (Grant q junk) (Some (Some v)) =
       Returns (\<lparr>base = q, bytes = take (unat (len v)) (bytes (inner v)) @ [0], live = True\<rparr>, None) \<and>
     vec_clone_str (Grant q' junk') (Some v) =
       Returns (Some \<lparr>base = q', bytes = take (unat (len v)) (bytes (inner v)) @ [0], live = True\<rparr>, v) \<and>
     (len v = 3 \<and> take 3 (bytes (inner v)) = [97, 98, 99] \<longrightarrow>
        vec_to_str (Grant q junk) (Some (Some v)) =
          Returns (\<lparr>base = q, bytes = [97, 98, 99, 0], live = True\<rparr>, None) \<and>
        vec_clone_str (Grant q' junk') (Some v) =
          Returns (Some \<lparr>base = q', bytes = [97, 98, 99, 0], live = True\<rparr>, v))"
proof (intro conjI impI)
  show "vec_resize (Grant q junk) (Some v) (len v + 1) =
       Returns (True,
         v\<lparr>inner := \<lparr>base = q,
                       bytes = take (unat (len v) + 1) (bytes (inner v)) @
                               map junk [length (bytes (inner v))..<unat (len v) + 1], live = True\<rparr>,
           capacity := len v + 1\<rparr>)"
    using ok es nowrap by (rule vec_to_str_ok(1))
  show s: "vec_to_str (Grant q junk) (Some (Some v)) =
       Returns (\<lparr>base = q, bytes = take (unat (len v)) (bytes (inner v)) @ [0], live = True\<rparr>, None)"
    using ok es nowrap by (rule vec_to_str_ok(2))
  show c: "vec_clone_str (Grant q' junk') (Some v) =
       Returns (Some \<lparr>base = q', bytes = take (unat (len v)) (bytes (inner v)) @ [0], live = True\<rparr>, v)"
    using ok es nowrap by (rule vec_clone_str_ok)
  assume abc: "len v = 3 \<and> take 3 (bytes (inner v)) = [97, 98, 99]"
  then have "take (unat (len v)) (bytes (inner v)) @ [0] = [97, 98, 99, 0]"
    by simp
  then show "vec_to_str (Grant q junk) (Some (Some v)) =
          Returns (\<lparr>base = q, bytes = [97, 98, 99, 0], live = True\<rparr>, None)"
    and "vec_clone_str (Grant q' junk') (Some v) =
          Returns (Some \<lparr>base = q', bytes = [97, 98, 99, 0], live = True\<rparr>, v)"
    using s c by (simp_all only:)
qed

theorem bytestring_spec_witness:
  "vec_to_str (Grant 32 (\<lambda>_. 255))
     (Some (Some \<lparr>inner = \<lparr>base = 16, bytes = [97, 98, 99], live = True\<rparr>,
                  capacity = 3, len = 3, elem_size = 1\<rparr>)) =
     Returns (\<lparr>base = 32, bytes = [97, 98, 99, 0], live = True\<rparr>, None) \<and>
   vec_clone_str (Grant 48 (\<lambda>_. 255))
     (Some \<lparr>inner = \<lparr>base = 16, bytes = [97, 98, 99], live = True\<rparr>,
            capacity = 3, len = 3, elem_size = 1\<rparr>) =
     Returns (Some \<lparr>base = 48, bytes = [97, 98, 99, 0], live = True\<rparr>,
       \<lparr>inner = \<lparr>base = 16, bytes = [97, 98, 99], live = True\<rparr>,
        capacity = 3, len = 3, elem_size = 1\<rparr>)"
proof -
  let ?v = "\<lparr>inner = \<lparr>base = 16, bytes = [97, 98, 99], live = True\<rparr>,
             capacity = 3, len = 3, elem_size = 1\<rparr>"
  have ok: "vec_ok ?v"
    by (simp add: vec_ok_def size_max_def)
  have es: "elem_size ?v = 1"
    by simp
  have nowrap: "unat (len ?v) + 1 < size_max"
    by (simp add: size_max_def)
  show ?thesis
    using bytestring_spec [OF ok es nowrap, of 32 "\<lambda>_. 255" 48 "\<lambda>_. 255"]
    by (simp del: vec_to_str.simps vec_clone_str.simps vec_resize.simps)
qed

end
